theory Spec2Isabelle
  imports Complex_Main "HOL-Library.List_Lexorder" "HOL-Library.Multiset"
begin

section \<open>Bernoulli mixture model: data\<close>

text \<open>
  A shallow embedding of \<^verbatim>\<open>bernoullimix/mixture.py\<close>. Floating-point numbers are
  idealised as \<^typ>\<open>real\<close>: every theorem below is a statement of exact arithmetic.
  Python's unbounded integers are \<^typ>\<open>int\<close>; array extents and indices are \<^typ>\<open>nat\<close>.

  A two-dimensional numpy array carries its shape even when it has no rows, so it is a
  record of the column count and the list of rows. The array is \<open>rectangular\<close> when every
  row has \<open>ncols\<close> entries; numpy arrays always are.
\<close>

record 'a array2 =
  ncols :: nat
  rows :: "'a list list"

definition shape :: "'a array2 \<Rightarrow> nat \<times> nat" where
  "shape a = (length (rows a), ncols a)"

definition rectangular :: "'a array2 \<Rightarrow> bool" where
  "rectangular a = list_all (\<lambda>r. length r = ncols a) (rows a)"

text \<open>Every failure of the source is a \<^verbatim>\<open>ValueError\<close>; the constructors tell the raise sites apart.\<close>

datatype error =
    WrongMixingShape
  | MixingNotSumToOne
  | MixingNotBounded
  | WrongEmissionShape
  | EmissionNotBounded
  | DatasetShapeMismatch
  | EmptyArgmax

record bernoulli_mixture =
  number_of_components :: int
  number_of_dimensions :: int
  mixing_coefficients :: "real list"
  emission_probabilities :: "real array2"

record convergence_status =
  converged :: bool
  number_of_iterations :: nat
  likelihood_trace :: "real list option"

section \<open>Construction and validation\<close>

text \<open>\<^verbatim>\<open>np.isclose(a, b, rtol, atol)\<close> on finite values.\<close>

definition isclose :: "real \<Rightarrow> real \<Rightarrow> real \<Rightarrow> real \<Rightarrow> bool" where
  "isclose a b rtol atol = (\<bar>a - b\<bar> \<le> atol + rtol * \<bar>b\<bar>)"

definition bounded_between_zero_and_one :: "real list \<Rightarrow> bool" where
  "bounded_between_zero_and_one array = list_all (\<lambda>x. 0 \<le> x \<and> x \<le> 1) array"

text \<open>\<^verbatim>\<open>_validate\<close>: the five checks in the order of the source; the defaults of
  \<^verbatim>\<open>np.isclose\<close> are \<^verbatim>\<open>rtol=1e-05, atol=1e-08\<close>.\<close>

definition validate :: "bernoulli_mixture \<Rightarrow> error + unit" where
  "validate m =
    (let K = number_of_components m; D = number_of_dimensions m in
     if \<not> int (length (mixing_coefficients m)) = K then Inl WrongMixingShape
     else if \<not> isclose (sum_list (mixing_coefficients m)) 1 (1 / 10 ^ 5) (1 / 10 ^ 8)
       then Inl MixingNotSumToOne
     else if \<not> bounded_between_zero_and_one (mixing_coefficients m) then Inl MixingNotBounded
     else if \<not> (int (length (rows (emission_probabilities m))) = K
                \<and> int (ncols (emission_probabilities m)) = D)
       then Inl WrongEmissionShape
     else if \<not> bounded_between_zero_and_one (concat (rows (emission_probabilities m)))
       then Inl EmissionNotBounded
     else Inr ())"

text \<open>\<^verbatim>\<open>BernoulliMixture.__init__\<close>: the object is returned only when \<^verbatim>\<open>_validate\<close> does not raise.\<close>

definition init :: "int \<Rightarrow> int \<Rightarrow> real list \<Rightarrow> real array2 \<Rightarrow> error + bernoulli_mixture" where
  "init K D mixing emission =
    (let self = \<lparr> number_of_components = K, number_of_dimensions = D,
                  mixing_coefficients = mixing, emission_probabilities = emission \<rparr>
     in case validate self of Inl e \<Rightarrow> Inl e | Inr _ \<Rightarrow> Inr self)"

definition number_of_free_parameters :: "bernoulli_mixture \<Rightarrow> int" where
  "number_of_free_parameters m =
     (number_of_components m - 1) + (number_of_components m * number_of_dimensions m)"

section \<open>Aggregation of identical rows\<close>

text \<open>
  \<^verbatim>\<open>np.unique(structured, return_counts=True)\<close> sorts the records and returns the first
  element of every run of equal records with the length of the run. A record of \<open>D\<close>
  boolean fields is compared field by field, which is the lexicographic order on the row.
\<close>

fun run_lengths :: "'a list \<Rightarrow> ('a \<times> nat) list" where
  "run_lengths [] = []"
| "run_lengths (x # xs) =
     (case run_lengths xs of
        [] \<Rightarrow> [(x, 1)]
      | (y, n) # rest \<Rightarrow> if x = y then (y, Suc n) # rest else (x, 1) # (y, n) # rest)"

definition np_unique :: "('a::linorder) list \<Rightarrow> 'a list \<times> nat list" where
  "np_unique ar = (let runs = run_lengths (sort ar) in (map fst runs, map snd runs))"

definition aggregate_dataset :: "bool array2 \<Rightarrow> bool array2 \<times> nat list" where
  "aggregate_dataset dataset =
    (let columns = ncols dataset;
         (unique, counts) = np_unique (rows dataset)
     in (\<lparr> ncols = columns, rows = unique \<rparr>, counts))"

text \<open>The datasets the aggregator is defined on: rectangular, with at least one column
  (a record type of no fields cannot be viewed).\<close>

definition dataset_ok :: "bool array2 \<Rightarrow> bool" where
  "dataset_ok dataset = (0 < ncols dataset \<and> rectangular dataset)"

section \<open>Support, log-likelihood, responsibilities\<close>

text \<open>
  Modelled from the spec: \<^verbatim>\<open>bernoulli_prob_for_observations\<close> of the compiled module
  \<^verbatim>\<open>bernoullimix._bernoulli\<close>, which is not among the sources. The spec's support entry is
  the mixing coefficient times the product over the dimensions of
  \<open>p[d]\<close> if \<open>row[d]\<close> is true and \<open>1 - p[d]\<close> otherwise; the function returns that product
  for every row of the observations.
\<close>

definition bernoulli_factor :: "real \<Rightarrow> bool \<Rightarrow> real" where
  "bernoulli_factor pd x = (if x then pd else 1 - pd)"

definition bernoulli_prob :: "real list \<Rightarrow> bool list \<Rightarrow> real" where
  "bernoulli_prob p row = prod_list (map2 bernoulli_factor p row)"

definition bernoulli_prob_for_observations :: "real list \<Rightarrow> bool array2 \<Rightarrow> real list" where
  "bernoulli_prob_for_observations p observations = map (bernoulli_prob p) (rows observations)"

text \<open>\<^verbatim>\<open>_observation_emission_support\<close>: column \<open>component\<close> of the answer is the mixing
  coefficient times the vector of row probabilities.\<close>

definition observation_emission_support :: "bernoulli_mixture \<Rightarrow> bool array2 \<Rightarrow> real array2" where
  "observation_emission_support m observations =
    (let K = nat (number_of_components m);
         column = (\<lambda>component.
            map (\<lambda>b. mixing_coefficients m ! component * b)
              (bernoulli_prob_for_observations
                 (rows (emission_probabilities m) ! component) observations))
     in \<lparr> ncols = K,
          rows = map (\<lambda>i. map (\<lambda>component. column component ! i) [0..<K])
                   [0..<length (rows observations)] \<rparr>)"

text \<open>\<^verbatim>\<open>np.sum(np.log(np.sum(support, axis=1)) * weights)\<close>\<close>

definition log_likelihood_from_support :: "real array2 \<Rightarrow> nat list \<Rightarrow> real" where
  "log_likelihood_from_support support weights =
     sum_list (map2 (\<lambda>s w. ln s * real w) (map sum_list (rows support)) weights)"

text \<open>\<^verbatim>\<open>(support.T / np.sum(support, axis=1)).T\<close>\<close>

definition posterior_probability_of_class_given_support :: "real array2 \<Rightarrow> real array2" where
  "posterior_probability_of_class_given_support support =
     \<lparr> ncols = ncols support,
       rows = map (\<lambda>r. map (\<lambda>s. s / sum_list r) r) (rows support) \<rparr>"

definition log_likelihood :: "bernoulli_mixture \<Rightarrow> bool array2 \<Rightarrow> error + real" where
  "log_likelihood m dataset =
    (if int (ncols dataset) \<noteq> number_of_dimensions m then Inl DatasetShapeMismatch
     else let (unique_dataset, weights) = aggregate_dataset dataset;
              support = observation_emission_support m unique_dataset
          in Inr (log_likelihood_from_support support weights))"

section \<open>Penalised likelihood\<close>

definition penalised_likelihood :: "bernoulli_mixture \<Rightarrow> real \<Rightarrow> real \<Rightarrow> real" where
  "penalised_likelihood m ll psi = - 2 * ll + psi * real_of_int (number_of_free_parameters m)"

definition BIC :: "bernoulli_mixture \<Rightarrow> bool array2 \<Rightarrow> error + real" where
  "BIC m dataset =
    (case log_likelihood m dataset of
       Inl e \<Rightarrow> Inl e
     | Inr ll \<Rightarrow> Inr (penalised_likelihood m ll (ln (real (length (rows dataset))))))"

definition AIC :: "bernoulli_mixture \<Rightarrow> bool array2 \<Rightarrow> error + real" where
  "AIC m dataset =
    (case log_likelihood m dataset of
       Inl e \<Rightarrow> Inl e
     | Inr ll \<Rightarrow> Inr (penalised_likelihood m ll 2))"

section \<open>Assignment\<close>

text \<open>\<^verbatim>\<open>soft_assignment\<close> has no check of its own: it hands the dataset to the support
  computation as it is.\<close>

definition soft_assignment :: "bernoulli_mixture \<Rightarrow> bool array2 \<Rightarrow> error + real array2" where
  "soft_assignment m dataset =
    (let support = observation_emission_support m dataset;
         probs = posterior_probability_of_class_given_support support
     in Inr probs)"

text \<open>\<^verbatim>\<open>np.argmax\<close> of a vector: the first index at which the maximum is attained.\<close>

fun argmax :: "real list \<Rightarrow> nat" where
  "argmax [] = 0"
| "argmax [x] = 0"
| "argmax (x # y # ys) = (let j = argmax (y # ys) in if x < (y # ys) ! j then Suc j else 0)"

text \<open>\<^verbatim>\<open>np.argmax(probs, axis=1)\<close> raises on an axis of length zero.\<close>

definition hard_assignment :: "bernoulli_mixture \<Rightarrow> bool array2 \<Rightarrow> error + nat list" where
  "hard_assignment m dataset =
    (case soft_assignment m dataset of
       Inl e \<Rightarrow> Inl e
     | Inr probs \<Rightarrow> if ncols probs = 0 then Inl EmptyArgmax else Inr (map argmax (rows probs)))"

section \<open>The M-step\<close>

text \<open>
  Modelled from the spec: \<^verbatim>\<open>maximise_emissions\<close> of the compiled module
  \<^verbatim>\<open>bernoullimix._bernoulli\<close>, which is not among the sources. The spec's new emission
  probability is \<open>(\<Sum>i. weight i * z i k * row i d) / u k\<close> and \<^verbatim>\<open>_m_step\<close> performs the
  division by \<open>u k\<close> itself, so the function returns the \<open>K \<times> D\<close> array of numerators.
\<close>

definition maximise_emissions :: "bool array2 \<Rightarrow> real array2 \<Rightarrow> nat list \<Rightarrow> real array2" where
  "maximise_emissions unique_dataset unique_zstar weights =
    \<lparr> ncols = ncols unique_dataset,
      rows = map (\<lambda>k. map (\<lambda>d.
                 sum_list (map (\<lambda>i. real (weights ! i) * (rows unique_zstar ! i ! k)
                                      * of_bool (rows unique_dataset ! i ! d))
                            [0..<length (rows unique_dataset)]))
               [0..<ncols unique_dataset])
             [0..<ncols unique_zstar] \<rparr>"

text \<open>\<^verbatim>\<open>_m_step\<close>. \<^verbatim>\<open>np.sum(unique_zstar.T * weights, axis=1)\<close> is, for every column \<open>k\<close>
  of \<open>unique_zstar\<close>, the sum over the rows \<open>i\<close> of \<open>unique_zstar[i, k] * weights[i]\<close>; the loop
  divides row \<open>k\<close> of \<open>vs\<close> by \<open>u[k]\<close> in place.\<close>

definition m_step :: "real array2 \<Rightarrow> bool array2 \<Rightarrow> nat list \<Rightarrow> real list \<times> real array2" where
  "m_step unique_zstar unique_dataset weights =
    (let u = map (\<lambda>k. sum_list (map (\<lambda>i. rows unique_zstar ! i ! k * real (weights ! i))
                                  [0..<length (rows unique_zstar)]))
               [0..<ncols unique_zstar];
         sum_of_weights = real (sum_list weights);
         (N, K) = shape unique_zstar;
         vs = maximise_emissions unique_dataset unique_zstar weights;
         vs = vs \<lparr> rows := map (\<lambda>k. map (\<lambda>v. v / u ! k) (rows vs ! k)) [0..<K] \<rparr>
     in (map (\<lambda>uk. uk / sum_of_weights) u, vs))"

section \<open>The fit loop\<close>

text \<open>The variables of \<^verbatim>\<open>fit\<close> that the loop reads and writes. \<open>self\<close> is the model, which
  the loop mutates. The trace is kept as the list of the values recorded so far: the
  source writes entry \<open>iterations_done\<close> of a buffer of \<open>iteration_limit\<close> entries and trims
  the buffer to \<open>iterations_done\<close> entries at the end, or appends to a list.\<close>

record fit_state =
  self :: bernoulli_mixture
  iterations_done :: nat
  previous_log_likelihood :: "real option"
  current_log_likelihood :: "real option"
  trace :: "real list"
  converged_flag :: bool

text \<open>The convergence test of the loop: \<^verbatim>\<open>previous_log_likelihood is not None and
  np.isclose(current, previous, rtol=0, atol=convergence_threshold)\<close>.\<close>

definition declares_convergence :: "real option \<Rightarrow> real \<Rightarrow> real \<Rightarrow> bool" where
  "declares_convergence previous current convergence_threshold =
    (case previous of None \<Rightarrow> False
     | Some p \<Rightarrow> isclose current p 0 convergence_threshold)"

text \<open>One pass through the body of the \<^verbatim>\<open>while\<close> loop. The \<^verbatim>\<open>break\<close> is the branch that
  sets the flag and changes nothing else but the current log-likelihood.\<close>

definition fit_iteration ::
  "real \<Rightarrow> bool \<Rightarrow> bool array2 \<Rightarrow> nat list \<Rightarrow> fit_state \<Rightarrow> fit_state" where
  "fit_iteration convergence_threshold trace_likelihood unique_dataset counts s =
    (let unique_support = observation_emission_support (self s) unique_dataset;
         current = log_likelihood_from_support unique_support counts
     in if declares_convergence (previous_log_likelihood s) current convergence_threshold
        then s \<lparr> current_log_likelihood := Some current, converged_flag := True \<rparr>
        else
          let unique_z_star = posterior_probability_of_class_given_support unique_support;
              (pi, e) = m_step unique_z_star unique_dataset counts
          in s \<lparr> self := (self s) \<lparr> mixing_coefficients := pi, emission_probabilities := e \<rparr>,
                 trace := (if trace_likelihood then trace s @ [current] else trace s),
                 previous_log_likelihood := Some current,
                 current_log_likelihood := Some current,
                 iterations_done := iterations_done s + 1 \<rparr>)"

text \<open>\<^verbatim>\<open>iteration_limit is None or iterations_done < iteration_limit\<close>\<close>

definition loop_condition :: "nat option \<Rightarrow> fit_state \<Rightarrow> bool" where
  "loop_condition iteration_limit s =
     (case iteration_limit of None \<Rightarrow> True | Some n \<Rightarrow> iterations_done s < n)"

text \<open>The loop. \<open>iteration_limit = None\<close> runs until convergence and may not return, so
  the result is an option: \<open>None\<close> is a loop that runs forever.\<close>

partial_function (option) fit_loop ::
  "nat option \<Rightarrow> real \<Rightarrow> bool \<Rightarrow> bool array2 \<Rightarrow> nat list \<Rightarrow> fit_state \<Rightarrow> fit_state option" where
  "fit_loop iteration_limit convergence_threshold trace_likelihood unique_dataset counts s =
    (if loop_condition iteration_limit s
     then (let s' = fit_iteration convergence_threshold trace_likelihood unique_dataset counts s
           in if converged_flag s' then Some s'
              else fit_loop iteration_limit convergence_threshold trace_likelihood
                     unique_dataset counts s')
     else Some s)"

text \<open>\<^verbatim>\<open>fit\<close> returns the last log-likelihood computed (\<^verbatim>\<open>None\<close> when the loop body never
  ran), the convergence status and, as the third component, the mutated model.\<close>

definition fit ::
  "bernoulli_mixture \<Rightarrow> bool array2 \<Rightarrow> nat option \<Rightarrow> real \<Rightarrow> bool
     \<Rightarrow> (error + real option \<times> convergence_status \<times> bernoulli_mixture) option" where
  "fit m dataset iteration_limit convergence_threshold trace_likelihood =
    (if int (ncols dataset) \<noteq> number_of_dimensions m then Some (Inl DatasetShapeMismatch)
     else
       let (unique_dataset, counts) = aggregate_dataset dataset;
           s0 = \<lparr> self = m, iterations_done = 0, previous_log_likelihood = None,
                  current_log_likelihood = None, trace = [], converged_flag = False \<rparr>
       in case fit_loop iteration_limit convergence_threshold trace_likelihood
                 unique_dataset counts s0 of
            None \<Rightarrow> None
          | Some s \<Rightarrow>
              Some (Inr (current_log_likelihood s,
                         \<lparr> converged = converged_flag s,
                           number_of_iterations = iterations_done s,
                           likelihood_trace = (if trace_likelihood then Some (trace s) else None) \<rparr>,
                         self s)))"

section \<open>A worked example\<close>

text \<open>One component, one dimension, emission probability \<open>2/3\<close>; a dataset of three rows of
  which two are equal. \<open>example_unique\<close> and \<open>example_counts\<close> are the aggregated dataset,
  \<open>example_support\<close> its support and \<open>example_ll\<close> the log-likelihood of the dataset under
  the model. The model is a fixed point of the M-step on this dataset, so a traced fit
  converges in its second pass: \<open>example_initial\<close> is the state before the first pass and
  \<open>example_state\<close> the state after it.\<close>

definition example_model :: bernoulli_mixture where
  "example_model = \<lparr> number_of_components = 1, number_of_dimensions = 1,
       mixing_coefficients = [1], emission_probabilities = \<lparr> ncols = 1, rows = [[2 / 3]] \<rparr> \<rparr>"

definition example_dataset :: "bool array2" where
  "example_dataset = \<lparr> ncols = 1, rows = [[True], [False], [True]] \<rparr>"

definition example_unique :: "bool array2" where
  "example_unique = \<lparr> ncols = 1, rows = [[False], [True]] \<rparr>"

definition example_counts :: "nat list" where
  "example_counts = [1, 2]"

definition example_support :: "real array2" where
  "example_support = \<lparr> ncols = 1, rows = [[1 / 3], [2 / 3]] \<rparr>"

definition example_ll :: real where
  "example_ll = log_likelihood_from_support example_support example_counts"

definition example_initial :: fit_state where
  "example_initial = \<lparr> self = example_model, iterations_done = 0,
       previous_log_likelihood = None, current_log_likelihood = None,
       trace = [], converged_flag = False \<rparr>"

definition example_state :: fit_state where
  "example_state = \<lparr> self = example_model, iterations_done = 1,
       previous_log_likelihood = Some example_ll, current_log_likelihood = Some example_ll,
       trace = [example_ll], converged_flag = False \<rparr>"

definition example_status :: convergence_status where
  "example_status = \<lparr> converged = True, number_of_iterations = 1,
                        likelihood_trace = Some [example_ll] \<rparr>"

text \<open>The responsibilities of the example: with one component every row has responsibility 1.\<close>

definition example_zstar :: "real array2" where
  "example_zstar = \<lparr> ncols = 1, rows = [[1], [1]] \<rparr>"

text \<open>A dataset of two columns, which the one-dimensional example model does not match;
  the model of three components and four dimensions of the repository's tests, and a
  dataset for it with three rows of which two are equal.\<close>

definition wide_dataset :: "bool array2" where
  "wide_dataset = \<lparr> ncols = 2, rows = [[True, False]] \<rparr>"

definition model_3_4 :: bernoulli_mixture where
  "model_3_4 = \<lparr> number_of_components = 3, number_of_dimensions = 4,
       mixing_coefficients = [1 / 2, 2 / 5, 1 / 10],
       emission_probabilities = \<lparr> ncols = 4, rows =
          [[1 / 10, 1 / 5, 3 / 10, 2 / 5], [1 / 10, 2 / 5, 1 / 10, 2 / 5], [1, 0, 0, 0]] \<rparr> \<rparr>"

definition dataset_3_4 :: "bool array2" where
  "dataset_3_4 = \<lparr> ncols = 4, rows =
      [[True, False, False, False], [False, True, False, False], [True, False, False, False]] \<rparr>"

section \<open>The spec's reference formulas\<close>

text \<open>The naive log-likelihood of the spec: the sum over the rows of the raw dataset,
  duplicates included, of the logarithm of the row's total support.\<close>

definition naive_log_likelihood :: "bernoulli_mixture \<Rightarrow> bool array2 \<Rightarrow> real" where
  "naive_log_likelihood m dataset =
     sum_list (map (\<lambda>support_row. ln (sum_list support_row))
                 (rows (observation_emission_support m dataset)))"

text \<open>The closed-form update of the spec: the effective weighted count \<open>u k\<close> of a
  component, the new mixing coefficient \<open>u k / (\<Sum>k'. u k')\<close>, and the new emission
  probability \<open>(\<Sum>i. weight i * z i k * row i d) / u k\<close>.\<close>

definition effective_count :: "real array2 \<Rightarrow> nat list \<Rightarrow> nat \<Rightarrow> real" where
  "effective_count zstar weights k =
     (\<Sum>i < length (rows zstar). real (weights ! i) * rows zstar ! i ! k)"

definition closed_form_mixing :: "real array2 \<Rightarrow> nat list \<Rightarrow> nat \<Rightarrow> real" where
  "closed_form_mixing zstar weights k =
     effective_count zstar weights k / (\<Sum>k' < ncols zstar. effective_count zstar weights k')"

definition closed_form_emission ::
  "real array2 \<Rightarrow> bool array2 \<Rightarrow> nat list \<Rightarrow> nat \<Rightarrow> nat \<Rightarrow> real" where
  "closed_form_emission zstar unique_rows weights k d =
     (\<Sum>i < length (rows zstar).
         real (weights ! i) * rows zstar ! i ! k * of_bool (rows unique_rows ! i ! d))
     / effective_count zstar weights k"

section \<open>Invariants of the loop\<close>

text \<open>What holds of the loop variables before every pass: the flag is not set, a previous
  log-likelihood exists exactly when a pass has been completed, and with tracing the
  previous log-likelihood is the last entry of the trace.\<close>

definition trace_invariant :: "bool \<Rightarrow> fit_state \<Rightarrow> bool" where
  "trace_invariant tr s \<longleftrightarrow>
     \<not> converged_flag s
   \<and> (previous_log_likelihood s = None \<longleftrightarrow> iterations_done s = 0)
   \<and> (tr \<longrightarrow> previous_log_likelihood s \<noteq> None \<longrightarrow>
         trace s \<noteq> [] \<and> previous_log_likelihood s = Some (last (trace s)))"

section \<open>The EM update and its invariant\<close>

text \<open>An entry of the support matrix; the model after one E-step and M-step, as the loop
  body commits it; and what the loop preserves: the shapes agree, the counts are
  positive, the parameters are probabilities, the mixing coefficients sum to at most 1,
  every row is supported by some component and every component supports some row.\<close>

definition support_entry :: "bernoulli_mixture \<Rightarrow> bool array2 \<Rightarrow> nat \<Rightarrow> nat \<Rightarrow> real" where
  "support_entry m observations i k =
     mixing_coefficients m ! k
       * bernoulli_prob (rows (emission_probabilities m) ! k) (rows observations ! i)"

definition em_update :: "bernoulli_mixture \<Rightarrow> bool array2 \<Rightarrow> nat list \<Rightarrow> bernoulli_mixture" where
  "em_update m unique_dataset counts =
     m \<lparr> mixing_coefficients :=
           fst (m_step (posterior_probability_of_class_given_support
                          (observation_emission_support m unique_dataset)) unique_dataset counts),
         emission_probabilities :=
           snd (m_step (posterior_probability_of_class_given_support
                          (observation_emission_support m unique_dataset)) unique_dataset counts) \<rparr>"

definition em_invariant :: "bernoulli_mixture \<Rightarrow> bool array2 \<Rightarrow> nat list \<Rightarrow> bool" where
  "em_invariant m unique_dataset counts \<longleftrightarrow>
     length (mixing_coefficients m) = nat (number_of_components m)
   \<and> length (rows (emission_probabilities m)) = nat (number_of_components m)
   \<and> (\<forall>k < nat (number_of_components m).
         length (rows (emission_probabilities m) ! k) = ncols unique_dataset)
   \<and> rectangular unique_dataset
   \<and> length counts = length (rows unique_dataset)
   \<and> (\<forall>i < length (rows unique_dataset). 0 < counts ! i)
   \<and> (\<forall>k < nat (number_of_components m). 0 \<le> mixing_coefficients m ! k)
   \<and> sum_list (mixing_coefficients m) \<le> 1
   \<and> (\<forall>k < nat (number_of_components m). \<forall>d < ncols unique_dataset.
         0 \<le> rows (emission_probabilities m) ! k ! d
       \<and> rows (emission_probabilities m) ! k ! d \<le> 1)
   \<and> (\<forall>i < length (rows unique_dataset). \<exists>k < nat (number_of_components m).
         0 < support_entry m unique_dataset i k)
   \<and> (\<forall>k < nat (number_of_components m). \<exists>i < length (rows unique_dataset).
         0 < support_entry m unique_dataset i k)"

text \<open>The datasets on which the arithmetic of the loop is defined: every row has
  positive total support (no division by zero in the E-step, no logarithm of zero) and
  every component has positive support on some row (no division by zero in the
  M-step).\<close>

definition rows_supported :: "bernoulli_mixture \<Rightarrow> bool array2 \<Rightarrow> bool" where
  "rows_supported m dataset \<longleftrightarrow>
     (\<forall>r \<in> set (rows (observation_emission_support m dataset)). 0 < sum_list r)"

definition components_supported :: "bernoulli_mixture \<Rightarrow> bool array2 \<Rightarrow> bool" where
  "components_supported m dataset \<longleftrightarrow>
     (\<forall>k < nat (number_of_components m).
        \<exists>r \<in> set (rows (observation_emission_support m dataset)). 0 < r ! k)"

text \<open>What holds before every pass of a traced fit: the EM invariant, a sorted trace whose
  entries are at most the log-likelihood of the current model, and a current
  log-likelihood that is the last entry of the trace.\<close>

definition monotone_invariant :: "bool array2 \<Rightarrow> nat list \<Rightarrow> fit_state \<Rightarrow> bool" where
  "monotone_invariant unique_dataset counts s \<longleftrightarrow>
     \<not> converged_flag s
   \<and> em_invariant (self s) unique_dataset counts
   \<and> sorted (trace s)
   \<and> (\<forall>y \<in> set (trace s).
         y \<le> log_likelihood_from_support
               (observation_emission_support (self s) unique_dataset) counts)
   \<and> (current_log_likelihood s = None \<and> trace s = []
      \<or> trace s \<noteq> [] \<and> current_log_likelihood s = Some (last (trace s)))"

section \<open>A model whose mixing coefficients sum to more than 1\<close>

text \<open>Two identical components with mixing coefficients \<open>0.500005\<close> each: the sum \<open>1.00001\<close> is
  within the tolerance of the constructor. On the dataset of one true and one false row
  the first M-step replaces the mixing coefficients by \<open>1/2\<close> each and leaves the emission
  probabilities at \<open>1/2\<close>. \<open>drift_ll\<close> and \<open>drift_ll'\<close> are the log-likelihoods before and after
  that update; the states are those before the first, second and third pass.\<close>

definition drift_model :: bernoulli_mixture where
  "drift_model = \<lparr> number_of_components = 2, number_of_dimensions = 1,
       mixing_coefficients = [100001 / 200000, 100001 / 200000],
       emission_probabilities = \<lparr> ncols = 1, rows = [[1 / 2], [1 / 2]] \<rparr> \<rparr>"

definition drift_model' :: bernoulli_mixture where
  "drift_model' = \<lparr> number_of_components = 2, number_of_dimensions = 1,
       mixing_coefficients = [1 / 2, 1 / 2],
       emission_probabilities = \<lparr> ncols = 1, rows = [[1 / 2], [1 / 2]] \<rparr> \<rparr>"

definition drift_dataset :: "bool array2" where
  "drift_dataset = \<lparr> ncols = 1, rows = [[True], [False]] \<rparr>"

definition drift_counts :: "nat list" where
  "drift_counts = [1, 1]"

definition drift_support :: "real array2" where
  "drift_support = \<lparr> ncols = 2, rows = [[100001 / 400000, 100001 / 400000],
                                          [100001 / 400000, 100001 / 400000]] \<rparr>"

definition drift_support' :: "real array2" where
  "drift_support' = \<lparr> ncols = 2, rows = [[1 / 4, 1 / 4], [1 / 4, 1 / 4]] \<rparr>"

definition drift_zstar :: "real array2" where
  "drift_zstar = \<lparr> ncols = 2, rows = [[1 / 2, 1 / 2], [1 / 2, 1 / 2]] \<rparr>"

definition drift_ll :: real where
  "drift_ll = log_likelihood_from_support drift_support drift_counts"

definition drift_ll' :: real where
  "drift_ll' = log_likelihood_from_support drift_support' drift_counts"

definition drift_status :: convergence_status where
  "drift_status = \<lparr> converged = False, number_of_iterations = 2,
                      likelihood_trace = Some [drift_ll, drift_ll'] \<rparr>"

definition drift_initial :: fit_state where
  "drift_initial = \<lparr> self = drift_model, iterations_done = 0,
       previous_log_likelihood = None, current_log_likelihood = None,
       trace = [], converged_flag = False \<rparr>"

definition drift_state :: fit_state where
  "drift_state = \<lparr> self = drift_model', iterations_done = 1,
       previous_log_likelihood = Some drift_ll, current_log_likelihood = Some drift_ll,
       trace = [drift_ll], converged_flag = False \<rparr>"

definition drift_final :: fit_state where
  "drift_final = \<lparr> self = drift_model', iterations_done = 2,
       previous_log_likelihood = Some drift_ll', current_log_likelihood = Some drift_ll',
       trace = [drift_ll, drift_ll'], converged_flag = False \<rparr>"

section \<open>The loop: unfolding, invariants, termination\<close>

lemma fit_loop_unfold:
  "fit_loop il t tr U W s =
    (if loop_condition il s
     then (if converged_flag (fit_iteration t tr U W s) then Some (fit_iteration t tr U W s)
           else fit_loop il t tr U W (fit_iteration t tr U W s))
     else Some s)"
  by (subst fit_loop.simps) (simp add: Let_def)

lemma fit_loop_cases:
  assumes run: "fit_loop il t tr U W s = Some s'"
    and init: "I s"
    and step: "\<And>x. I x \<Longrightarrow> loop_condition il x \<Longrightarrow> \<not> converged_flag (fit_iteration t tr U W x)
                  \<Longrightarrow> I (fit_iteration t tr U W x)"
  shows "(\<exists>x. I x \<and> loop_condition il x \<and> s' = fit_iteration t tr U W x \<and> converged_flag s')
       \<or> (I s' \<and> \<not> loop_condition il s')"
proof -
  let ?Q = "\<lambda>s s'. (\<exists>x. I x \<and> loop_condition il x \<and> s' = fit_iteration t tr U W x \<and> converged_flag s')
       \<or> (I s' \<and> \<not> loop_condition il s')"
  let ?P = "\<lambda>il' t' tr' U' W' s s'.
      il' = il \<longrightarrow> t' = t \<longrightarrow> tr' = tr \<longrightarrow> U' = U \<longrightarrow> W' = W \<longrightarrow> I s \<longrightarrow> ?Q s s'"
  have "?P il t tr U W s s'"
  proof (rule fit_loop.raw_induct [where P = ?P, OF _ run], intro impI, goal_cases)
    case (1 f il' t' tr' U' W' x y)
    note IH = 1(1) and eq = 1(2)
    have eqs: "il' = il" "t' = t" "tr' = tr" "U' = U" "W' = W" and Ix: "I x"
      using 1 by simp_all
    show ?case
    proof (cases "loop_condition il x")
      case False
      with eq eqs have "y = x" by (simp add: loop_condition_def)
      with Ix False show ?thesis by blast
    next
      case True
      show ?thesis
      proof (cases "converged_flag (fit_iteration t tr U W x)")
        case c: True
        with True eq eqs have "y = fit_iteration t tr U W x"
          by (simp add: Let_def)
        with c True Ix show ?thesis by blast
      next
        case c: False
        with True eq eqs have "f il t tr U W (fit_iteration t tr U W x) = Some y"
          by (simp add: Let_def)
        moreover have "I (fit_iteration t tr U W x)" using step [OF Ix True c] .
        ultimately show ?thesis using IH by blast
      qed
    qed
  qed
  with init show ?thesis by simp
qed

lemma fit_iteration_iterations_done:
  "\<not> converged_flag (fit_iteration t tr U W s)
     \<Longrightarrow> iterations_done (fit_iteration t tr U W s) = Suc (iterations_done s)"
  by (simp add: fit_iteration_def Let_def split: if_splits prod.splits)

lemma fit_loop_terminates:
  "\<exists>s'. fit_loop (Some n) t tr U W s = Some s'"
proof (induction "n - iterations_done s" arbitrary: s)
  case 0
  then show ?case by (subst fit_loop_unfold) (simp add: loop_condition_def)
next
  case (Suc k)
  show ?case
  proof (cases "converged_flag (fit_iteration t tr U W s)")
    case True
    then show ?thesis by (subst fit_loop_unfold) simp
  next
    case False
    from fit_iteration_iterations_done [OF False] Suc(2)
    have "k = n - iterations_done (fit_iteration t tr U W s)" by simp
    from Suc(1) [OF this] False show ?thesis by (subst fit_loop_unfold) simp
  qed
qed

section \<open>One pass of the loop\<close>

lemma declares_convergence_iff:
  "declares_convergence previous current t \<longleftrightarrow> (\<exists>p. previous = Some p \<and> \<bar>current - p\<bar> \<le> t)"
  by (simp add: declares_convergence_def isclose_def split: option.split)

lemma fit_iteration_stop:
  assumes "declares_convergence (previous_log_likelihood s)
             (log_likelihood_from_support (observation_emission_support (self s) U) W) t"
  shows "fit_iteration t tr U W s =
           s \<lparr> current_log_likelihood :=
                 Some (log_likelihood_from_support (observation_emission_support (self s) U) W),
               converged_flag := True \<rparr>"
  using assms by (simp add: fit_iteration_def Let_def)

lemma fit_iteration_continue:
  assumes "\<not> declares_convergence (previous_log_likelihood s)
             (log_likelihood_from_support (observation_emission_support (self s) U) W) t"
  shows "fit_iteration t tr U W s =
     s \<lparr> self := (self s) \<lparr>
            mixing_coefficients := fst (m_step (posterior_probability_of_class_given_support
                (observation_emission_support (self s) U)) U W),
            emission_probabilities := snd (m_step (posterior_probability_of_class_given_support
                (observation_emission_support (self s) U)) U W) \<rparr>,
         trace := (if tr then trace s @ [log_likelihood_from_support (observation_emission_support (self s) U) W]
                   else trace s),
         previous_log_likelihood := Some (log_likelihood_from_support (observation_emission_support (self s) U) W),
         current_log_likelihood := Some (log_likelihood_from_support (observation_emission_support (self s) U) W),
         iterations_done := iterations_done s + 1 \<rparr>"
  using assms by (simp add: fit_iteration_def Let_def split: prod.split)

lemma fit_iteration_converged_iff:
  "converged_flag (fit_iteration t tr U W s) \<longleftrightarrow>
     converged_flag s \<or> declares_convergence (previous_log_likelihood s)
        (log_likelihood_from_support (observation_emission_support (self s) U) W) t"
  by (cases "declares_convergence (previous_log_likelihood s)
        (log_likelihood_from_support (observation_emission_support (self s) U) W) t")
     (simp_all add: fit_iteration_stop fit_iteration_continue)

lemma trace_invariant_step:
  assumes "trace_invariant tr s" and "\<not> converged_flag (fit_iteration t tr U W s)"
  shows "trace_invariant tr (fit_iteration t tr U W s)"
proof -
  from assms have "\<not> declares_convergence (previous_log_likelihood s)
        (log_likelihood_from_support (observation_emission_support (self s) U) W) t"
    by (simp add: fit_iteration_converged_iff)
  from fit_iteration_continue [OF this] assms(1) show ?thesis
    by (simp add: trace_invariant_def)
qed

section \<open>The worked example, evaluated\<close>

lemma upt_2: "[0..<2] = [0, 1]"
  by (simp add: numeral_2_eq_2)

lemma example_aggregate: "aggregate_dataset example_dataset = (example_unique, example_counts)"
  by (simp add: aggregate_dataset_def example_dataset_def np_unique_def example_unique_def
        example_counts_def)

lemma example_support_eq:
  "observation_emission_support example_model example_unique = example_support"
  by (simp add: observation_emission_support_def example_model_def example_unique_def
       bernoulli_prob_for_observations_def bernoulli_prob_def bernoulli_factor_def example_support_def)

lemma example_m_step:
  "m_step (posterior_probability_of_class_given_support example_support)
      example_unique example_counts
     = (mixing_coefficients example_model, emission_probabilities example_model)"
  by (simp add: m_step_def maximise_emissions_def shape_def example_unique_def upt_2
        posterior_probability_of_class_given_support_def example_support_def example_counts_def
        example_model_def)

lemma example_iteration_1:
  "fit_iteration t True example_unique example_counts example_initial = example_state"
proof -
  have "\<not> declares_convergence (previous_log_likelihood example_initial)
          (log_likelihood_from_support
             (observation_emission_support (self example_initial) example_unique) example_counts) t"
    by (simp add: example_initial_def declares_convergence_def)
  then show ?thesis
    unfolding fit_iteration_def Let_def
    by (simp add: example_initial_def example_support_eq example_m_step example_state_def
          example_ll_def)
qed

lemma example_iteration_2:
  assumes "0 \<le> t"
  shows "fit_iteration t True example_unique example_counts example_state
           = example_state \<lparr> converged_flag := True \<rparr>"
proof -
  have "declares_convergence (previous_log_likelihood example_state)
          (log_likelihood_from_support
             (observation_emission_support (self example_state) example_unique) example_counts) t"
    using assms
    by (simp add: example_state_def declares_convergence_def example_support_eq example_ll_def
          isclose_def)
  then show ?thesis
    unfolding fit_iteration_def Let_def
    by (simp add: example_state_def example_support_eq example_ll_def)
qed

lemma example_fit:
  assumes "0 \<le> t"
  shows "fit example_model example_dataset (Some (Suc (Suc n))) t True =
           Some (Inr (Some example_ll, example_status, example_model))"
proof -
  have d: "int (ncols example_dataset) = number_of_dimensions example_model"
    by (simp add: example_dataset_def example_model_def)
  have c1: "loop_condition (Some (Suc (Suc n))) example_initial"
    and c2: "loop_condition (Some (Suc (Suc n))) example_state"
    by (simp_all add: loop_condition_def example_initial_def example_state_def)
  have "fit_loop (Some (Suc (Suc n))) t True example_unique example_counts example_state
          = Some (example_state \<lparr> converged_flag := True \<rparr>)"
    by (subst fit_loop_unfold) (simp add: c2 example_iteration_2 [OF assms])
  then have "fit_loop (Some (Suc (Suc n))) t True example_unique example_counts example_initial
          = Some (example_state \<lparr> converged_flag := True \<rparr>)"
    by (subst fit_loop_unfold) (simp add: c1 example_iteration_1 example_state_def)
  then show ?thesis
    unfolding fit_def
    by (simp add: d example_aggregate example_initial_def [symmetric])
       (simp add: example_state_def example_status_def)
qed

section \<open>Run lengths of a sorted list\<close>

lemma run_lengths_Nil_iff: "run_lengths xs = [] \<longleftrightarrow> xs = []"
  by (cases xs) (auto split: list.splits)

lemma run_lengths_hd: "run_lengths (x # xs) = (y, n) # rest \<Longrightarrow> y = x"
  by (auto split: list.splits if_splits)

lemma run_lengths_keys: "fst ` set (run_lengths xs) = set xs"
proof (induction xs)
  case Nil
  show ?case by simp
next
  case (Cons x xs)
  show ?case
  proof (cases "run_lengths xs")
    case Nil
    with run_lengths_Nil_iff [of xs] show ?thesis by simp
  next
    case (Cons p rest)
    obtain y n where p: "p = (y, n)" by (cases p)
    from Cons p Cons.IH have "insert y (fst ` set rest) = set xs" by simp
    with Cons p show ?thesis by auto
  qed
qed

lemma run_lengths_sum: "sum_list (map (\<lambda>(x, n). f x * real n) (run_lengths xs)) = sum_list (map f xs)"
proof (induction xs)
  case Nil
  show ?case by simp
next
  case (Cons x xs)
  show ?case
  proof (cases "run_lengths xs")
    case Nil
    with run_lengths_Nil_iff [of xs] show ?thesis by simp
  next
    case c: (Cons p rest)
    obtain y n where p: "p = (y, n)" by (cases p)
    from Cons.IH c p show ?thesis by (simp add: algebra_simps)
  qed
qed

lemma run_lengths_length: "sum_list (map snd (run_lengths xs)) = length xs"
proof (induction xs)
  case Nil
  show ?case by simp
next
  case (Cons x xs)
  show ?case
  proof (cases "run_lengths xs")
    case Nil
    with run_lengths_Nil_iff [of xs] show ?thesis by simp
  next
    case c: (Cons p rest)
    obtain y n where p: "p = (y, n)" by (cases p)
    from Cons.IH c p show ?thesis by simp
  qed
qed

lemma run_lengths_strict:
  fixes xs :: "('a::linorder) list"
  assumes "sorted xs"
  shows "sorted_wrt (<) (map fst (run_lengths xs))"
  using assms
proof (induction xs)
  case Nil
  show ?case by simp
next
  case (Cons x xs)
  then have IH: "sorted_wrt (<) (map fst (run_lengths xs))" and le: "\<forall>z \<in> set xs. x \<le> z"
    by simp_all
  show ?case
  proof (cases "run_lengths xs")
    case Nil
    then show ?thesis by simp
  next
    case c: (Cons p rest)
    obtain y n where p: "p = (y, n)" by (cases p)
    from run_lengths_keys [of xs] c p have y: "y \<in> set xs" by auto
    show ?thesis
    proof (cases "x = y")
      case True
      with IH c p show ?thesis by simp
    next
      case False
      with le y have "x < y" by force
      moreover from IH c p have "\<forall>z \<in> set (map fst rest). y < z" by simp
      ultimately have "\<forall>z \<in> set (map fst rest). x < z" by force
      with IH c p False \<open>x < y\<close> show ?thesis by simp
    qed
  qed
qed

lemma run_lengths_count:
  fixes xs :: "('a::linorder) list"
  assumes "sorted xs" and "(x, n) \<in> set (run_lengths xs)"
  shows "n = count_list xs x"
  using assms
proof (induction xs arbitrary: x n)
  case Nil
  then show ?case by simp
next
  case (Cons x0 xs)
  then have s: "sorted xs" and le: "\<forall>z \<in> set xs. x0 \<le> z" by simp_all
  note IH = Cons.IH [OF s]
  show ?case
  proof (cases "run_lengths xs")
    case Nil
    with run_lengths_Nil_iff [of xs] Cons.prems show ?thesis by simp
  next
    case c: (Cons p rest)
    obtain y m where p: "p = (y, m)" by (cases p)
    from run_lengths_strict [OF s] c p have fresh: "\<forall>z \<in> fst ` set rest. y < z" by simp
    from run_lengths_keys [of xs] c p have keys: "insert y (fst ` set rest) = set xs" by simp
    have m: "m = count_list xs y" using IH [of y m] c p by simp
    show ?thesis
    proof (cases "x0 = y")
      case True
      with Cons.prems c p have "(x, n) = (y, Suc m) \<or> (x, n) \<in> set rest" by simp
      then show ?thesis
      proof
        assume "(x, n) = (y, Suc m)"
        with m True show ?thesis by simp
      next
        assume r: "(x, n) \<in> set rest"
        then have "y < x" using fresh by force
        moreover from r c have "n = count_list xs x" using IH [of x n] by simp
        ultimately show ?thesis using True by simp
      qed
    next
      case False
      from keys have "y \<in> set xs" by auto
      with le False have "x0 < y" by force
      have "x0 \<notin> set xs"
      proof
        assume "x0 \<in> set xs"
        with keys have "x0 = y \<or> x0 \<in> fst ` set rest" by auto
        with fresh \<open>x0 < y\<close> show False by force
      qed
      then have z: "count_list xs x0 = 0" by (simp add: count_list_0_iff)
      from Cons.prems c p False have "(x, n) = (x0, 1) \<or> (x, n) \<in> set (run_lengths xs)" by auto
      then show ?thesis
      proof
        assume "(x, n) = (x0, 1)"
        with z show ?thesis by simp
      next
        assume r: "(x, n) \<in> set (run_lengths xs)"
        then have "x \<in> set xs" using run_lengths_keys [of xs] by force
        with \<open>x0 \<notin> set xs\<close> have "x \<noteq> x0" by auto
        with IH [OF r] show ?thesis by simp
      qed
    qed
  qed
qed

lemma count_list_sort: "count_list (sort xs) x = count_list xs x"
  by (simp add: count_mset [symmetric])

lemma np_unique_props:
  fixes ar :: "('a::linorder) list"
  assumes "np_unique ar = (unique, counts)"
  shows "distinct unique"
    and "length counts = length unique"
    and "\<forall>i < length unique. counts ! i = count_list ar (unique ! i)"
    and "sum_list counts = length ar"
    and "set unique = set ar"
proof -
  let ?runs = "run_lengths (sort ar)"
  from assms have u: "unique = map fst ?runs" and c: "counts = map snd ?runs"
    by (simp_all add: np_unique_def Let_def)
  have "sorted_wrt (<) unique" unfolding u by (rule run_lengths_strict) simp
  then show "distinct unique" by (simp add: strict_sorted_iff)
  show "length counts = length unique" by (simp add: u c)
  show "\<forall>i < length unique. counts ! i = count_list ar (unique ! i)"
  proof (intro allI impI)
    fix i assume i: "i < length unique"
    then have "(unique ! i, counts ! i) \<in> set ?runs"
      using nth_mem [of i ?runs] by (simp add: u c)
    from run_lengths_count [OF _ this] show "counts ! i = count_list ar (unique ! i)"
      by (simp add: count_list_sort)
  qed
  show "sum_list counts = length ar" by (simp add: c run_lengths_length)
  show "set unique = set ar" using run_lengths_keys [of "sort ar"] by (simp add: u)
qed

lemma aggregate_dataset_eq:
  "aggregate_dataset dataset =
     (\<lparr> ncols = ncols dataset, rows = fst (np_unique (rows dataset)) \<rparr>,
      snd (np_unique (rows dataset)))"
  by (simp add: aggregate_dataset_def split: prod.split)

section \<open>Fitting with an iteration limit of zero\<close>

lemma example_dataset_ok: "dataset_ok example_dataset"
  by (simp add: dataset_ok_def rectangular_def example_dataset_def)

lemma example_dims: "int (ncols example_dataset) = number_of_dimensions example_model"
  by (simp add: example_dataset_def example_model_def)

text \<open>
  C10. With \<open>iteration_limit = 0\<close> the loop body never runs: \<^verbatim>\<open>fit\<close> returns \<^verbatim>\<open>None\<close> in place
  of the log-likelihood, a status with \<open>converged = False\<close> and \<open>number_of_iterations = 0\<close>
  (with an empty trace when tracing was asked for), and the model it was called on,
  mixing coefficients and emission probabilities unchanged.
\<close>
theorem fit_iteration_limit_zero:
  assumes "dataset_ok dataset" and "int (ncols dataset) = number_of_dimensions m"
  shows "fit m dataset (Some 0) convergence_threshold trace_likelihood =
           Some (Inr (None,
                      \<lparr> converged = False, number_of_iterations = 0,
                        likelihood_trace = (if trace_likelihood then Some [] else None) \<rparr>,
                      m))"
  using assms(2) by (simp add: fit_def fit_loop.simps loop_condition_def split: prod.split)

theorem fit_iteration_limit_zero_witness:
  "dataset_ok example_dataset \<and> int (ncols example_dataset) = number_of_dimensions example_model
   \<and> fit example_model example_dataset (Some 0) (1 / 10 ^ 6) True =
           Some (Inr (None, \<lparr> converged = False, number_of_iterations = 0,
                        likelihood_trace = Some [] \<rparr>, example_model))"
  using fit_iteration_limit_zero [OF example_dataset_ok example_dims, of "1 / 10 ^ 6" True]
    example_dataset_ok example_dims by simp

section \<open>Free parameters, AIC and BIC\<close>

text \<open>
  C8. The number of free parameters is \<open>(K - 1) + K * D\<close>, and on a dataset of matching
  dimensionality \<open>AIC = -2 * log_likelihood + 2 * free\<close> and
  \<open>BIC = -2 * log_likelihood + ln N * free\<close>, where \<open>N\<close> is the number of rows of the dataset
  passed in, duplicates included. Under the witness the count is 14 for \<open>K = 3\<close>, \<open>D = 4\<close>,
  and \<open>N = 3\<close> on a dataset with two distinct rows.
\<close>
theorem free_parameters_and_information_criteria:
  assumes "dataset_ok dataset" and "int (ncols dataset) = number_of_dimensions m"
  shows "number_of_free_parameters m
           = (number_of_components m - 1) + number_of_components m * number_of_dimensions m
       \<and> (\<exists>ll. log_likelihood m dataset = Inr ll
             \<and> AIC m dataset = Inr (- 2 * ll + 2 * real_of_int (number_of_free_parameters m))
             \<and> BIC m dataset = Inr (- 2 * ll + ln (real (length (rows dataset)))
                                               * real_of_int (number_of_free_parameters m)))"
  using assms(2)
  by (simp add: number_of_free_parameters_def AIC_def BIC_def penalised_likelihood_def
        log_likelihood_def split: prod.split)

lemma model_3_4_valid:
  "init 3 4 (mixing_coefficients model_3_4) (emission_probabilities model_3_4) = Inr model_3_4"
  by (simp add: init_def validate_def model_3_4_def isclose_def bounded_between_zero_and_one_def)

lemma dataset_3_4_ok: "dataset_ok dataset_3_4"
  by (simp add: dataset_ok_def rectangular_def dataset_3_4_def)

lemma dataset_3_4_dims: "int (ncols dataset_3_4) = number_of_dimensions model_3_4"
  by (simp add: dataset_3_4_def model_3_4_def)

lemma dataset_3_4_unique: "length (rows (fst (aggregate_dataset dataset_3_4))) = 2"
  by (simp add: aggregate_dataset_def dataset_3_4_def np_unique_def)

theorem free_parameters_and_information_criteria_witness:
  "dataset_ok dataset_3_4 \<and> int (ncols dataset_3_4) = number_of_dimensions model_3_4
   \<and> number_of_free_parameters model_3_4 = 14
   \<and> length (rows (fst (aggregate_dataset dataset_3_4))) = 2
   \<and> (\<exists>ll. log_likelihood model_3_4 dataset_3_4 = Inr ll
         \<and> AIC model_3_4 dataset_3_4 = Inr (- 2 * ll + 2 * 14)
         \<and> BIC model_3_4 dataset_3_4 = Inr (- 2 * ll + ln 3 * 14))"
proof -
  have n: "number_of_free_parameters model_3_4 = 14"
    by (simp add: number_of_free_parameters_def model_3_4_def)
  have r: "length (rows dataset_3_4) = 3"
    by (simp add: dataset_3_4_def)
  show ?thesis
    using free_parameters_and_information_criteria [OF dataset_3_4_ok dataset_3_4_dims]
      dataset_3_4_ok dataset_3_4_dims dataset_3_4_unique
    by (simp add: n r)
qed

section \<open>Construction rejects invalid parameters\<close>

text \<open>
  C7. Construction fails exactly when one of the five checks fails: the mixing vector does
  not have \<open>K\<close> entries, its sum is farther from 1 than the tolerance of \<^verbatim>\<open>np.isclose\<close>
  (\<open>1e-8 + 1e-5\<close>), one of its entries is outside \<open>[0, 1]\<close>, the emission matrix is not of
  shape \<open>(K, D)\<close>, or one of its entries is outside \<open>[0, 1]\<close>. A failed construction
  returns the error and no model.
\<close>
theorem init_rejects_invalid_parameters:
  "(\<exists>e. init K D mixing emission = Inl e) \<longleftrightarrow>
     int (length mixing) \<noteq> K
   \<or> \<not> \<bar>sum_list mixing - 1\<bar> \<le> 1 / 10 ^ 8 + 1 / 10 ^ 5
   \<or> (\<exists>x \<in> set mixing. x < 0 \<or> 1 < x)
   \<or> (int (fst (shape emission)), int (snd (shape emission))) \<noteq> (K, D)
   \<or> (\<exists>r \<in> set (rows emission). \<exists>x \<in> set r. x < 0 \<or> 1 < x)"
proof -
  have b: "bounded_between_zero_and_one xs \<longleftrightarrow> \<not> (\<exists>x \<in> set xs. x < 0 \<or> 1 < x)" for xs
    by (auto simp: bounded_between_zero_and_one_def list_all_iff not_less)
  have c: "(\<exists>x \<in> set (concat xss). x < 0 \<or> 1 < x) \<longleftrightarrow> (\<exists>r \<in> set xss. \<exists>x \<in> set r. x < 0 \<or> 1 < x)"
    for xss :: "real list list"
    by auto
  show ?thesis
    unfolding init_def validate_def Let_def b c shape_def isclose_def
    by (simp split: sum.splits)
qed

theorem init_rejects_invalid_parameters_witness:
  "\<not> \<bar>sum_list [1 / 2, 2 / 5, 1 / 5 :: real] - 1\<bar> \<le> 1 / 10 ^ 8 + 1 / 10 ^ 5
   \<and> (\<exists>e. init 3 4 [1 / 2, 2 / 5, 1 / 5] (emission_probabilities model_3_4) = Inl e)
   \<and> (\<exists>x \<in> set [13 / 10 :: real]. x < 0 \<or> 1 < x)
   \<and> (\<exists>e. init 1 1 [1] \<lparr> ncols = 1, rows = [[13 / 10]] \<rparr> = Inl e)"
proof -
  have s: "\<not> \<bar>sum_list [1 / 2, 2 / 5, 1 / 5 :: real] - 1\<bar> \<le> 1 / 10 ^ 8 + 1 / 10 ^ 5"
    by simp
  have e: "\<exists>r \<in> set (rows \<lparr> ncols = 1, rows = [[13 / 10 :: real]] \<rparr>). \<exists>x \<in> set r. x < 0 \<or> 1 < x"
    by (rule bexI [where x = "[13 / 10]"], rule bexI [where x = "13 / 10"]) simp_all
  have e': "\<exists>x \<in> set [13 / 10 :: real]. x < 0 \<or> 1 < x"
    by (rule bexI [where x = "13 / 10"]) simp_all
  have "\<exists>e. init 3 4 [1 / 2, 2 / 5, 1 / 5] (emission_probabilities model_3_4) = Inl e"
    using init_rejects_invalid_parameters [of 3 4 "[1 / 2, 2 / 5, 1 / 5]" "emission_probabilities model_3_4"] s
    by blast
  moreover have "\<exists>e. init 1 1 [1] \<lparr> ncols = 1, rows = [[13 / 10]] \<rparr> = Inl e"
    using init_rejects_invalid_parameters [of 1 1 "[1]" "\<lparr> ncols = 1, rows = [[13 / 10]] \<rparr>"] e
    by blast
  ultimately show ?thesis using s e' by blast
qed

lemma rejected_examples:
  "init 3 4 [1 / 2, 2 / 5, 1 / 5] (emission_probabilities model_3_4) = Inl MixingNotSumToOne"
  "init 1 1 [1] \<lparr> ncols = 1, rows = [[13 / 10]] \<rparr> = Inl EmissionNotBounded"
  by (simp_all add: init_def validate_def isclose_def bounded_between_zero_and_one_def)

section \<open>Datasets of the wrong dimensionality\<close>

text \<open>\<^verbatim>\<open>fit\<close>, \<^verbatim>\<open>log_likelihood\<close>, \<^verbatim>\<open>AIC\<close> and \<^verbatim>\<open>BIC\<close> reject a dataset whose column count is not
  the model's \<open>D\<close>, before anything is computed; \<^verbatim>\<open>fit\<close> returns no model, so none was
  mutated.\<close>

lemma dimension_mismatch_rejected:
  assumes "int (ncols dataset) \<noteq> number_of_dimensions m"
  shows "fit m dataset il t tr = Some (Inl DatasetShapeMismatch)"
    and "log_likelihood m dataset = Inl DatasetShapeMismatch"
    and "AIC m dataset = Inl DatasetShapeMismatch"
    and "BIC m dataset = Inl DatasetShapeMismatch"
  using assms by (simp_all add: fit_def log_likelihood_def AIC_def BIC_def)

text \<open>
  C3. The claim is that all six operations fail with a dimension-mismatch error on a
  dataset whose column count differs from \<open>D\<close>. \<^verbatim>\<open>soft_assignment\<close> and \<^verbatim>\<open>hard_assignment\<close>
  have no such check: on a dataset of two columns and a model of one dimension,
  \<^verbatim>\<open>log_likelihood\<close> and \<^verbatim>\<open>fit\<close> raise, and the two assignments return a result.
\<close>
theorem assignment_without_dimension_check:
  "int (ncols wide_dataset) \<noteq> number_of_dimensions example_model
   \<and> log_likelihood example_model wide_dataset = Inl DatasetShapeMismatch
   \<and> fit example_model wide_dataset (Some 1000) (1 / 10 ^ 6) False = Some (Inl DatasetShapeMismatch)
   \<and> soft_assignment example_model wide_dataset = Inr \<lparr> ncols = 1, rows = [[1]] \<rparr>
   \<and> hard_assignment example_model wide_dataset = Inr [0]"
proof -
  have d: "int (ncols wide_dataset) \<noteq> number_of_dimensions example_model"
    by (simp add: wide_dataset_def example_model_def)
  have s: "soft_assignment example_model wide_dataset = Inr \<lparr> ncols = 1, rows = [[1]] \<rparr>"
    by (simp add: soft_assignment_def observation_emission_support_def
          posterior_probability_of_class_given_support_def bernoulli_prob_for_observations_def
          bernoulli_prob_def bernoulli_factor_def wide_dataset_def example_model_def)
  have h: "hard_assignment example_model wide_dataset = Inr [0]"
    by (simp add: hard_assignment_def s)
  from d s h dimension_mismatch_rejected [OF d] show ?thesis by simp
qed

section \<open>The convergence criterion\<close>

text \<open>
  C1. A pass of the loop declares convergence exactly when a previous log-likelihood
  exists and the absolute difference between the current and the previous
  log-likelihood is at most the threshold. The pass that declares convergence leaves
  the model and the iteration counter as they were, so when \<^verbatim>\<open>fit\<close> returns with
  \<open>converged\<close> set, the log-likelihood it returns is the log-likelihood of the dataset
  under the parameters of the returned model; at least one update has been made, and
  the returned value is within the threshold of the last value of the trace.
\<close>
theorem fit_convergence_criterion:
  "(\<not> converged_flag s \<longrightarrow>
      (converged_flag (fit_iteration t tr U W s) \<longleftrightarrow>
         (\<exists>p. previous_log_likelihood s = Some p
            \<and> \<bar>log_likelihood_from_support (observation_emission_support (self s) U) W - p\<bar> \<le> t)))
   \<and> (\<not> converged_flag s \<and> converged_flag (fit_iteration t tr U W s) \<longrightarrow>
        self (fit_iteration t tr U W s) = self s
      \<and> iterations_done (fit_iteration t tr U W s) = iterations_done s
      \<and> current_log_likelihood (fit_iteration t tr U W s)
          = Some (log_likelihood_from_support (observation_emission_support (self s) U) W))
   \<and> (fit m dataset il t tr = Some (Inr (ll, status, m')) \<and> converged status \<longrightarrow>
        ll = Some (log_likelihood_from_support
                     (observation_emission_support m' (fst (aggregate_dataset dataset)))
                     (snd (aggregate_dataset dataset)))
      \<and> 0 < number_of_iterations status
      \<and> (\<forall>xs. likelihood_trace status = Some xs \<longrightarrow> xs \<noteq> [] \<and> \<bar>the ll - last xs\<bar> \<le> t))"
proof (intro conjI impI)
  assume "\<not> converged_flag s"
  then show "converged_flag (fit_iteration t tr U W s) \<longleftrightarrow>
         (\<exists>p. previous_log_likelihood s = Some p
            \<and> \<bar>log_likelihood_from_support (observation_emission_support (self s) U) W - p\<bar> \<le> t)"
    by (simp add: fit_iteration_converged_iff declares_convergence_iff)
next
  assume a: "\<not> converged_flag s \<and> converged_flag (fit_iteration t tr U W s)"
  then have d: "declares_convergence (previous_log_likelihood s)
        (log_likelihood_from_support (observation_emission_support (self s) U) W) t"
    by (auto simp: fit_iteration_converged_iff)
  show "self (fit_iteration t tr U W s) = self s"
    and "iterations_done (fit_iteration t tr U W s) = iterations_done s"
    and "current_log_likelihood (fit_iteration t tr U W s)
          = Some (log_likelihood_from_support (observation_emission_support (self s) U) W)"
    by (simp_all add: fit_iteration_stop [OF d])
next
  assume a: "fit m dataset il t tr = Some (Inr (ll, status, m')) \<and> converged status"
  obtain U' W' where agg: "aggregate_dataset dataset = (U', W')"
    by (cases "aggregate_dataset dataset")
  let ?s0 = "\<lparr> self = m, iterations_done = 0, previous_log_likelihood = None,
                  current_log_likelihood = None, trace = [], converged_flag = False \<rparr>"
  from a agg obtain sf where run: "fit_loop il t tr U' W' ?s0 = Some sf"
    and ll: "ll = current_log_likelihood sf" and m': "m' = self sf"
    and st: "status = \<lparr> converged = converged_flag sf, number_of_iterations = iterations_done sf,
                         likelihood_trace = (if tr then Some (trace sf) else None) \<rparr>"
    by (auto simp: fit_def split: if_splits option.splits)
  from a st have conv: "converged_flag sf" by simp
  have init: "trace_invariant tr ?s0" by (simp add: trace_invariant_def)
  have step: "trace_invariant tr (fit_iteration t tr U' W' x)"
    if "trace_invariant tr x" "loop_condition il x" "\<not> converged_flag (fit_iteration t tr U' W' x)" for x
    using that(1,3) by (rule trace_invariant_step)
  have "\<not> trace_invariant tr sf" using conv by (simp add: trace_invariant_def)
  with fit_loop_cases [where I = "trace_invariant tr", OF run init step]
  obtain x where x: "trace_invariant tr x" "sf = fit_iteration t tr U' W' x"
    by blast
  from x conv have d: "declares_convergence (previous_log_likelihood x)
        (log_likelihood_from_support (observation_emission_support (self x) U') W') t"
    by (simp add: fit_iteration_converged_iff trace_invariant_def)
  note sf = x(2) [unfolded fit_iteration_stop [OF d]]
  from d obtain p where p: "previous_log_likelihood x = Some p"
     "\<bar>log_likelihood_from_support (observation_emission_support (self x) U') W' - p\<bar> \<le> t"
    by (auto simp: declares_convergence_iff)
  show "ll = Some (log_likelihood_from_support
                     (observation_emission_support m' (fst (aggregate_dataset dataset)))
                     (snd (aggregate_dataset dataset)))"
    by (simp add: ll m' sf agg)
  show "0 < number_of_iterations status"
    using x(1) p(1) by (simp add: st sf trace_invariant_def)
  show "\<forall>xs. likelihood_trace status = Some xs \<longrightarrow> xs \<noteq> [] \<and> \<bar>the ll - last xs\<bar> \<le> t"
    using x(1) p by (auto simp: st sf ll trace_invariant_def)
qed

theorem fit_convergence_criterion_witness:
  "\<not> converged_flag example_state
   \<and> converged_flag (fit_iteration (1 / 10 ^ 6) True example_unique example_counts example_state)
   \<and> self (fit_iteration (1 / 10 ^ 6) True example_unique example_counts example_state)
        = example_model
   \<and> fit example_model example_dataset (Some 2) (1 / 10 ^ 6) True
        = Some (Inr (Some example_ll, example_status, example_model))
   \<and> converged example_status
   \<and> Some example_ll = Some (log_likelihood_from_support
         (observation_emission_support example_model (fst (aggregate_dataset example_dataset)))
         (snd (aggregate_dataset example_dataset)))"
proof -
  have t: "(0::real) \<le> 1 / 10 ^ 6" by simp
  have n: "\<not> converged_flag example_state" by (simp add: example_state_def)
  have i: "converged_flag (fit_iteration (1 / 10 ^ 6) True example_unique example_counts example_state)"
    using example_iteration_2 [OF t] by simp
  have f: "fit example_model example_dataset (Some 2) (1 / 10 ^ 6) True
        = Some (Inr (Some example_ll, example_status, example_model))"
    using example_fit [OF t, of 0] by (simp add: numeral_2_eq_2)
  have c: "converged example_status" by (simp add: example_status_def)
  have s: "self example_state = example_model" by (simp add: example_state_def)
  from fit_convergence_criterion [of example_state "1 / 10 ^ 6" True example_unique
      example_counts example_model example_dataset "Some 2" "Some example_ll" example_status
      example_model]
    n i f c s
  show ?thesis by simp
qed

section \<open>The aggregator is exact\<close>

text \<open>
  C4. The aggregator returns unique rows without duplicates, the weight of a unique row is
  the number of rows of the dataset equal to it, the weights sum to the number of rows
  \<open>N\<close>, and the unique rows are exactly the rows that occur in the dataset: the multiset of
  rows is preserved.
\<close>
theorem aggregate_dataset_exact:
  assumes "dataset_ok dataset"
    and "aggregate_dataset dataset = (unique_rows, weights)"
  shows "distinct (rows unique_rows)
       \<and> length weights = length (rows unique_rows)
       \<and> (\<forall>i < length (rows unique_rows).
             weights ! i = count_list (rows dataset) (rows unique_rows ! i))
       \<and> sum_list weights = length (rows dataset)
       \<and> set (rows unique_rows) = set (rows dataset)
       \<and> shape unique_rows = (length (rows unique_rows), ncols dataset)"
proof -
  from assms(2) have "np_unique (rows dataset) = (rows unique_rows, weights)"
    and "ncols unique_rows = ncols dataset"
    by (auto simp: aggregate_dataset_eq)
  from np_unique_props [OF this(1)] this(2) show ?thesis
    by (simp add: shape_def)
qed

theorem aggregate_dataset_exact_witness:
  "dataset_ok example_dataset
   \<and> aggregate_dataset example_dataset = (example_unique, example_counts)
   \<and> distinct (rows example_unique)
   \<and> length example_counts = length (rows example_unique)
   \<and> example_counts ! 0 = count_list (rows example_dataset) (rows example_unique ! 0)
   \<and> example_counts ! 1 = count_list (rows example_dataset) (rows example_unique ! 1)
   \<and> sum_list example_counts = length (rows example_dataset)
   \<and> sum_list example_counts = 3
   \<and> set (rows example_unique) = set (rows example_dataset)"
proof -
  have "sum_list example_counts = 3" by (simp add: example_counts_def)
  moreover have "0 < length (rows example_unique)" "1 < length (rows example_unique)"
    by (simp_all add: example_unique_def)
  ultimately show ?thesis
    using aggregate_dataset_exact [OF example_dataset_ok example_aggregate]
      example_dataset_ok example_aggregate
    by blast
qed

section \<open>The aggregated log-likelihood is the naive one\<close>

lemma observation_emission_support_rows:
  "rows (observation_emission_support m observations) =
     map (\<lambda>row. map (\<lambda>component. mixing_coefficients m ! component
                          * bernoulli_prob (rows (emission_probabilities m) ! component) row)
                  [0..<nat (number_of_components m)])
       (rows observations)"
  unfolding observation_emission_support_def bernoulli_prob_for_observations_def Let_def
  by (rule nth_equalityI) simp_all

lemma observation_emission_support_ncols:
  "ncols (observation_emission_support m observations) = nat (number_of_components m)"
  by (simp add: observation_emission_support_def Let_def)

lemma map2_fst_snd: "map2 f (map fst ps) (map snd ps) = map (\<lambda>(x, y). f x y) ps"
  by (induction ps) auto

lemma log_likelihood_from_support_aggregate:
  "log_likelihood_from_support
      (observation_emission_support m (fst (aggregate_dataset dataset)))
      (snd (aggregate_dataset dataset))
    = naive_log_likelihood m dataset"
proof -
  let ?row = "\<lambda>row. map (\<lambda>component. mixing_coefficients m ! component
                          * bernoulli_prob (rows (emission_probabilities m) ! component) row)
                  [0..<nat (number_of_components m)]"
  let ?f = "\<lambda>row. ln (sum_list (?row row))"
  let ?runs = "run_lengths (sort (rows dataset))"
  have "log_likelihood_from_support
      (observation_emission_support m (fst (aggregate_dataset dataset)))
      (snd (aggregate_dataset dataset))
    = sum_list (map2 (\<lambda>row w. ?f row * real w) (map fst ?runs) (map snd ?runs))"
    by (simp add: log_likelihood_from_support_def aggregate_dataset_eq
          observation_emission_support_rows np_unique_def Let_def zip_map1 comp_def
          case_prod_unfold)
  also have "\<dots> = sum_list (map (\<lambda>(row, w). ?f row * real w) ?runs)"
    by (simp only: map2_fst_snd)
  also have "\<dots> = sum_list (map ?f (sort (rows dataset)))"
    by (rule run_lengths_sum)
  also have "\<dots> = sum_list (map ?f (rows dataset))"
  proof -
    have "mset (map ?f (sort (rows dataset))) = mset (map ?f (rows dataset))"
      by simp
    then have "sum_mset (mset (map ?f (sort (rows dataset)))) = sum_mset (mset (map ?f (rows dataset)))"
      by (rule arg_cong)
    then show ?thesis by (simp only: sum_mset_sum_list)
  qed
  also have "\<dots> = naive_log_likelihood m dataset"
    by (simp add: naive_log_likelihood_def observation_emission_support_rows comp_def)
  finally show ?thesis .
qed

text \<open>
  C5. On a dataset of matching dimensionality, \<^verbatim>\<open>log_likelihood\<close>, computed over the unique rows
  with their weights, equals the naive sum over the rows of the raw dataset.
\<close>

theorem log_likelihood_aggregation_correct:
  assumes "dataset_ok dataset" and "int (ncols dataset) = number_of_dimensions m"
  shows "log_likelihood m dataset = Inr (naive_log_likelihood m dataset)"
  using assms(2) log_likelihood_from_support_aggregate [of m dataset]
  by (auto simp: log_likelihood_def split: prod.split)

theorem log_likelihood_aggregation_correct_witness:
  "dataset_ok example_dataset
   \<and> int (ncols example_dataset) = number_of_dimensions example_model
   \<and> log_likelihood example_model example_dataset
        = Inr (naive_log_likelihood example_model example_dataset)"
  using log_likelihood_aggregation_correct [OF example_dataset_ok example_dims]
    example_dataset_ok example_dims
  by simp

section \<open>Soft and hard assignment\<close>

lemma argmax_props:
  assumes "xs \<noteq> []"
  shows "argmax xs < length xs
       \<and> (\<forall>k < length xs. xs ! k \<le> xs ! argmax xs)
       \<and> (\<forall>k < argmax xs. xs ! k < xs ! argmax xs)"
  using assms
proof (induction xs rule: argmax.induct)
  case 1
  then show ?case by simp
next
  case (2 x)
  show ?case by simp
next
  case (3 x y ys)
  let ?t = "y # ys" and ?j = "argmax (y # ys)"
  from 3 have j: "?j < length ?t"
    and mx: "\<forall>k < length ?t. ?t ! k \<le> ?t ! ?j"
    and fst: "\<forall>k < ?j. ?t ! k < ?t ! ?j"
    by simp_all
  show ?case
  proof (cases "x < ?t ! ?j")
    case True
    then have a: "argmax (x # ?t) = Suc ?j" by (simp add: Let_def)
    have "(x # ?t) ! k \<le> ?t ! ?j" if "k < length (x # ?t)" for k
      using that True mx by (cases k) auto
    moreover have "(x # ?t) ! k < ?t ! ?j" if "k < Suc ?j" for k
      using that True fst by (cases k) auto
    ultimately show ?thesis using j unfolding a by simp
  next
    case False
    then have a: "argmax (x # ?t) = 0" by (simp add: Let_def)
    have "(x # ?t) ! k \<le> x" if "k < length (x # ?t)" for k
    proof (cases k)
      case 0
      then show ?thesis by simp
    next
      case (Suc k')
      with that mx have "?t ! k' \<le> ?t ! ?j" by simp
      with False Suc show ?thesis by simp
    qed
    then show ?thesis unfolding a by simp
  qed
qed

lemma sum_list_divide:
  fixes c :: real
  shows "sum_list (map (\<lambda>s. s / c) r) = sum_list r / c"
  by (induction r) (simp_all add: add_divide_distrib)

lemma posterior_rows:
  "rows (posterior_probability_of_class_given_support support)
     = map (\<lambda>r. map (\<lambda>s. s / sum_list r) r) (rows support)"
  by (simp add: posterior_probability_of_class_given_support_def)

lemma posterior_row_sum:
  fixes r :: "real list"
  assumes "sum_list r \<noteq> 0"
  shows "sum_list (map (\<lambda>s. s / sum_list r) r) = 1"
  using assms by (simp add: sum_list_divide)

text \<open>
  C9. On a dataset of matching dimensionality on which every row has strictly positive
  total support, every row of \<^verbatim>\<open>soft_assignment\<close> sums to 1, and the label that
  \<^verbatim>\<open>hard_assignment\<close> gives row \<open>n\<close> is the arg-max of row \<open>n\<close> of \<^verbatim>\<open>soft_assignment\<close>: an index
  at which the row is maximal, and the first such index.
\<close>

theorem assignment_consistency:
  assumes "int (ncols dataset) = number_of_dimensions m"
    and "0 < number_of_components m"
    and "\<forall>r \<in> set (rows (observation_emission_support m dataset)). 0 < sum_list r"
  shows "\<exists>probs labels.
           soft_assignment m dataset = Inr probs
         \<and> hard_assignment m dataset = Inr labels
         \<and> shape probs = (length (rows dataset), nat (number_of_components m))
         \<and> length labels = length (rows dataset)
         \<and> (\<forall>n < length (rows dataset).
               sum_list (rows probs ! n) = 1
             \<and> labels ! n < nat (number_of_components m)
             \<and> (\<forall>k < nat (number_of_components m).
                    rows probs ! n ! k \<le> rows probs ! n ! (labels ! n))
             \<and> (\<forall>k < labels ! n. rows probs ! n ! k < rows probs ! n ! (labels ! n)))"
proof -
  let ?S = "observation_emission_support m dataset"
  let ?P = "posterior_probability_of_class_given_support ?S"
  let ?K = "nat (number_of_components m)"
  have soft: "soft_assignment m dataset = Inr ?P"
    by (simp add: soft_assignment_def)
  have nc: "ncols ?P = ?K"
    by (simp add: posterior_probability_of_class_given_support_def observation_emission_support_def Let_def)
  have K: "0 < ?K" using assms(2) by simp
  then have hard: "hard_assignment m dataset = Inr (map argmax (rows ?P))"
    by (simp add: hard_assignment_def soft nc)
  have len: "length (rows ?P) = length (rows dataset)"
    by (simp add: posterior_rows observation_emission_support_def Let_def)
  have lenS: "length (rows ?S) = length (rows dataset)"
    by (simp add: observation_emission_support_def Let_def)
  have row: "sum_list (rows ?P ! n) = 1 \<and> length (rows ?P ! n) = ?K" if "n < length (rows dataset)" for n
  proof -
    from that lenS have "rows ?S ! n \<in> set (rows ?S)" by simp
    with assms(3) have "sum_list (rows ?S ! n) \<noteq> 0" by force
    moreover have "length (rows ?S ! n) = ?K"
      using that by (simp add: observation_emission_support_def Let_def)
    ultimately show ?thesis using that lenS
      by (simp add: posterior_rows posterior_row_sum)
  qed
  have "sum_list (rows ?P ! n) = 1
      \<and> map argmax (rows ?P) ! n < ?K
      \<and> (\<forall>k < ?K. rows ?P ! n ! k \<le> rows ?P ! n ! (map argmax (rows ?P) ! n))
      \<and> (\<forall>k < map argmax (rows ?P) ! n.
             rows ?P ! n ! k < rows ?P ! n ! (map argmax (rows ?P) ! n))"
    if n: "n < length (rows dataset)" for n
  proof -
    from row [OF n] K have ne: "rows ?P ! n \<noteq> []" by auto
    from argmax_props [OF ne] row [OF n] n len show ?thesis by simp
  qed
  with soft hard len nc show ?thesis by (simp add: shape_def)
qed

theorem assignment_consistency_witness:
  "int (ncols example_dataset) = number_of_dimensions example_model
   \<and> 0 < number_of_components example_model
   \<and> (\<exists>probs labels.
           soft_assignment example_model example_dataset = Inr probs
         \<and> hard_assignment example_model example_dataset = Inr labels
         \<and> sum_list (rows probs ! 0) = 1 \<and> sum_list (rows probs ! 1) = 1
         \<and> sum_list (rows probs ! 2) = 1
         \<and> labels ! 0 < 1 \<and> labels ! 1 < 1 \<and> labels ! 2 < 1)"
proof -
  have K: "0 < number_of_components example_model" by (simp add: example_model_def)
  have pos: "\<forall>r \<in> set (rows (observation_emission_support example_model example_dataset)).
               0 < sum_list r"
    by (simp add: observation_emission_support_rows example_model_def example_dataset_def
          bernoulli_prob_def bernoulli_factor_def)
  have n: "0 < length (rows example_dataset)" "1 < length (rows example_dataset)"
    "2 < length (rows example_dataset)" "nat (number_of_components example_model) = 1"
    by (simp_all add: example_dataset_def example_model_def)
  from assignment_consistency [OF example_dims K pos]
  obtain probs labels where
      "soft_assignment example_model example_dataset = Inr probs"
      "hard_assignment example_model example_dataset = Inr labels"
      "\<forall>n < length (rows example_dataset).
               sum_list (rows probs ! n) = 1
             \<and> labels ! n < nat (number_of_components example_model)"
    by blast
  with n example_dims K show ?thesis by metis
qed

section \<open>The M-step is the closed-form update\<close>

lemma sum_list_upt: "sum_list (map f [0..<n]) = (\<Sum>i < n. f i)"
  by (simp add: interv_sum_list_conv_sum_set_nat atLeast0LessThan)

lemma sum_list_nth_sum: "sum_list xs = (\<Sum>i < length xs. xs ! i)"
  by (simp add: sum_list_sum_nth atLeast0LessThan)

lemma effective_count_total:
  assumes rect: "rectangular zstar"
    and len: "length weights = length (rows zstar)"
    and one: "\<forall>r \<in> set (rows zstar). sum_list r = 1"
  shows "(\<Sum>k < ncols zstar. effective_count zstar weights k) = real (sum_list weights)"
proof -
  have "(\<Sum>k < ncols zstar. effective_count zstar weights k)
      = (\<Sum>i < length (rows zstar). \<Sum>k < ncols zstar. real (weights ! i) * rows zstar ! i ! k)"
    unfolding effective_count_def by (rule sum.swap)
  also have "\<dots> = (\<Sum>i < length (rows zstar). real (weights ! i))"
  proof (rule sum.cong [OF refl])
    fix i assume "i \<in> {..<length (rows zstar)}"
    then have i: "rows zstar ! i \<in> set (rows zstar)" by simp
    with rect have l: "length (rows zstar ! i) = ncols zstar"
      by (simp add: rectangular_def list_all_iff)
    from i one have "sum_list (rows zstar ! i) = 1" by blast
    then have "(\<Sum>k < ncols zstar. rows zstar ! i ! k) = 1"
      by (simp add: sum_list_nth_sum l)
    then show "(\<Sum>k < ncols zstar. real (weights ! i) * rows zstar ! i ! k) = real (weights ! i)"
      by (simp add: sum_distrib_left [symmetric])
  qed
  also have "\<dots> = real (sum_list weights)"
    by (simp add: sum_list_nth_sum [of weights] len)
  finally show ?thesis .
qed

text \<open>
  C2. When every row of the responsibilities sums to 1 and every effective count is
  nonzero, \<^verbatim>\<open>_m_step\<close> returns the closed-form update: the mixing coefficients
  \<open>u k / (\<Sum>k'. u k')\<close> and, for every component and dimension, the emission probability
  \<open>(\<Sum>i. weight i * z i k * row i d) / u k\<close>, with no further term.
\<close>

theorem m_step_closed_form:
  assumes "rectangular zstar"
    and "length (rows unique_rows) = length (rows zstar)"
    and "length weights = length (rows zstar)"
    and "\<forall>r \<in> set (rows zstar). sum_list r = 1"
    and "\<forall>k < ncols zstar. effective_count zstar weights k \<noteq> 0"
  shows "m_step zstar unique_rows weights =
           (map (closed_form_mixing zstar weights) [0..<ncols zstar],
            \<lparr> ncols = ncols unique_rows,
              rows = map (\<lambda>k. map (closed_form_emission zstar unique_rows weights k)
                                 [0..<ncols unique_rows])
                       [0..<ncols zstar] \<rparr>)"
proof -
  have u: "sum_list (map (\<lambda>i. rows zstar ! i ! k * real (weights ! i)) [0..<length (rows zstar)])
             = effective_count zstar weights k" for k
    by (simp add: sum_list_upt effective_count_def mult.commute)
  have tot: "real (sum_list weights) = (\<Sum>k' < ncols zstar. effective_count zstar weights k')"
    using effective_count_total [OF assms(1,3,4)] by simp
  show ?thesis
    unfolding m_step_def Let_def shape_def prod.case maximise_emissions_def u
    by (simp add: tot closed_form_mixing_def closed_form_emission_def sum_list_upt assms(2)
          cong: map_cong)
qed

lemma lessThan_2: "{..<2::nat} = {0, 1}"
  by auto

lemma example_effective_count: "effective_count example_zstar example_counts 0 = 3"
  by (simp add: effective_count_def example_zstar_def example_counts_def lessThan_2)

theorem m_step_closed_form_witness:
  "rectangular example_zstar
   \<and> length (rows example_unique) = length (rows example_zstar)
   \<and> length example_counts = length (rows example_zstar)
   \<and> sum_list (rows example_zstar ! 0) = 1 \<and> sum_list (rows example_zstar ! 1) = 1
   \<and> effective_count example_zstar example_counts 0 \<noteq> 0
   \<and> m_step example_zstar example_unique example_counts
        = ([closed_form_mixing example_zstar example_counts 0],
           \<lparr> ncols = 1,
             rows = [[closed_form_emission example_zstar example_unique example_counts 0 0]] \<rparr>)
   \<and> closed_form_mixing example_zstar example_counts 0 = 1
   \<and> closed_form_emission example_zstar example_unique example_counts 0 0 = 2 / 3"
proof -
  have r: "rectangular example_zstar"
    by (simp add: rectangular_def example_zstar_def)
  have l1: "length (rows example_unique) = length (rows example_zstar)"
    by (simp add: example_unique_def example_zstar_def)
  have l2: "length example_counts = length (rows example_zstar)"
    by (simp add: example_counts_def example_zstar_def)
  have one: "\<forall>r \<in> set (rows example_zstar). sum_list r = 1"
    by (simp add: example_zstar_def)
  have nz: "\<forall>k < ncols example_zstar. effective_count example_zstar example_counts k \<noteq> 0"
    using example_effective_count by (simp add: example_zstar_def)
  have mix: "closed_form_mixing example_zstar example_counts 0 = 1"
    using example_effective_count by (simp add: closed_form_mixing_def example_zstar_def)
  have em: "closed_form_emission example_zstar example_unique example_counts 0 0 = 2 / 3"
    unfolding closed_form_emission_def example_effective_count
    by (simp add: example_zstar_def example_unique_def example_counts_def lessThan_2)
  have c: "ncols example_zstar = 1" "ncols example_unique = 1"
    by (simp_all add: example_zstar_def example_unique_def)
  from m_step_closed_form [OF r l1 l2 one nz]
  have "m_step example_zstar example_unique example_counts
        = ([closed_form_mixing example_zstar example_counts 0],
           \<lparr> ncols = 1,
             rows = [[closed_form_emission example_zstar example_unique example_counts 0 0]] \<rparr>)"
    by (simp add: c)
  with r l1 l2 mix em example_effective_count show ?thesis
    by (simp add: example_zstar_def)
qed

section \<open>One EM update does not decrease the log-likelihood\<close>

text \<open>The inequalities behind the EM algorithm, over index functions: the bound
  \<open>ln x \<le> x - 1\<close> gives Jensen's inequality for the responsibilities of a row, Gibbs'
  inequality for the new mixing coefficients, and the optimality of the weighted mean
  for one Bernoulli parameter.\<close>

lemma ln_ratio_le:
  fixes a b :: real
  assumes "0 < a" "0 < b"
  shows "ln (a / b) \<le> a / b - 1"
  using ln_le_minus_one [of "a / b"] assms by simp

text \<open>Jensen's inequality for the logarithm, in the form the E-step needs.\<close>

lemma jensen_row:
  fixes s s' :: "nat \<Rightarrow> real"
  assumes nonneg: "\<And>k. k < K \<Longrightarrow> 0 \<le> s k" "\<And>k. k < K \<Longrightarrow> 0 \<le> s' k"
    and keep: "\<And>k. k < K \<Longrightarrow> 0 < s k \<Longrightarrow> 0 < s' k"
    and pos: "0 < (\<Sum>k < K. s k)"
  shows "0 < (\<Sum>k < K. s' k)"
    and "(\<Sum>k < K. s k / (\<Sum>k < K. s k) * ln (s' k / s k))
           \<le> ln (\<Sum>k < K. s' k) - ln (\<Sum>k < K. s k)"
proof -
  let ?S = "\<Sum>k < K. s k" and ?S' = "\<Sum>k < K. s' k"
  from pos obtain k0 where k0: "k0 < K" "s k0 \<noteq> 0"
    by (metis lessThan_iff less_irrefl sum.neutral)
  with nonneg(1) [of k0] have "0 < s k0" by simp
  with keep k0 have "0 < s' k0" by simp
  moreover have "s' k0 \<le> ?S'"
    using k0(1) nonneg(2) by (intro member_le_sum) auto
  ultimately show S': "0 < ?S'" by simp
  have tm: "s k / ?S * (ln (s' k / s k) - ln (?S' / ?S)) \<le> s' k / ?S' - s k / ?S"
    if k: "k < K" for k
  proof (cases "s k = 0")
    case True
    with nonneg(2) [OF k] S' show ?thesis by simp
  next
    case False
    with nonneg(1) [OF k] have sk: "0 < s k" by simp
    with keep [OF k] have sk': "0 < s' k" by simp
    have "ln (s' k / s k) - ln (?S' / ?S) = ln ((s' k / s k) / (?S' / ?S))"
      using sk sk' S' pos by (subst (3) ln_divide_pos) simp_all
    also have "\<dots> \<le> (s' k / s k) / (?S' / ?S) - 1"
      using sk sk' S' pos by (intro ln_ratio_le) simp_all
    finally have "s k / ?S * (ln (s' k / s k) - ln (?S' / ?S))
                   \<le> s k / ?S * ((s' k / s k) / (?S' / ?S) - 1)"
      using sk pos by (intro mult_left_mono) simp_all
    also have "\<dots> = s' k / ?S' - s k / ?S"
      using sk pos S' by (simp add: field_simps)
    finally show ?thesis .
  qed
  have "(\<Sum>k < K. s k / ?S * (ln (s' k / s k) - ln (?S' / ?S)))
          \<le> (\<Sum>k < K. s' k / ?S' - s k / ?S)"
    by (intro sum_mono tm) simp
  also have "\<dots> = 0"
    using pos S' by (simp add: sum_subtractf sum_divide_distrib [symmetric])
  finally have "(\<Sum>k < K. s k / ?S * ln (s' k / s k)) - (\<Sum>k < K. s k / ?S) * ln (?S' / ?S) \<le> 0"
    by (simp add: right_diff_distrib sum_subtractf sum_distrib_right)
  moreover have "(\<Sum>k < K. s k / ?S) = 1"
    using pos by (simp add: sum_divide_distrib [symmetric])
  ultimately show "(\<Sum>k < K. s k / ?S * ln (s' k / s k)) \<le> ln ?S' - ln ?S"
    using pos S' by (simp add: ln_divide_pos)
qed

text \<open>Gibbs' inequality for the mixing coefficients.\<close>

lemma gibbs_mixing:
  fixes u p :: "nat \<Rightarrow> real"
  assumes u: "\<And>k. k < K \<Longrightarrow> 0 < u k" and p: "\<And>k. k < K \<Longrightarrow> 0 < p k"
    and N: "(\<Sum>k < K. u k) = N" and le: "(\<Sum>k < K. p k) \<le> 1"
  shows "0 \<le> (\<Sum>k < K. u k * ln ((u k / N) / p k))"
proof (cases "K = 0")
  case True
  then show ?thesis by simp
next
  case False
  then have "0 < K" by simp
  have Npos: "0 < N"
    unfolding N [symmetric] using \<open>0 < K\<close> u by (intro sum_pos) auto
  have tm: "u k * ln (p k / (u k / N)) \<le> N * p k - u k" if k: "k < K" for k
  proof -
    have "ln (p k / (u k / N)) \<le> p k / (u k / N) - 1"
      using p [OF k] u [OF k] Npos by (intro ln_ratio_le) simp_all
    then have "u k * ln (p k / (u k / N)) \<le> u k * (p k / (u k / N) - 1)"
      using u [OF k] by (intro mult_left_mono) simp_all
    also have "\<dots> = N * p k - u k"
      using u [OF k] Npos by (simp add: field_simps)
    finally show ?thesis .
  qed
  have "(\<Sum>k < K. u k * ln (p k / (u k / N))) \<le> (\<Sum>k < K. N * p k - u k)"
    by (intro sum_mono tm) simp
  also have "\<dots> = N * (\<Sum>k < K. p k) - N"
    by (simp add: sum_subtractf sum_distrib_left N)
  also have "\<dots> \<le> 0"
    using le Npos by (simp add: mult_left_le)
  finally have neg: "(\<Sum>k < K. u k * ln (p k / (u k / N))) \<le> 0" .
  have "(\<Sum>k < K. u k * ln ((u k / N) / p k)) = - (\<Sum>k < K. u k * ln (p k / (u k / N)))"
    unfolding sum_negf [symmetric]
  proof (rule sum.cong [OF refl])
    fix k assume "k \<in> {..<K}"
    then have k: "k < K" by simp
    have "ln ((u k / N) / p k) = - ln (p k / (u k / N))"
      using p [OF k] u [OF k] Npos by (simp add: ln_divide_pos)
    then show "u k * ln ((u k / N) / p k) = - (u k * ln (p k / (u k / N)))" by simp
  qed
  with neg show ?thesis by simp
qed

lemma bernoulli_mle:
  fixes c :: "nat \<Rightarrow> real" and x :: "nat \<Rightarrow> bool" and e :: real
  assumes c: "\<And>i. i < M \<Longrightarrow> 0 \<le> c i"
    and e: "0 \<le> e" "e \<le> 1"
    and b: "\<And>i. i < M \<Longrightarrow> 0 < c i \<Longrightarrow> 0 < bernoulli_factor e (x i)"
    and u: "0 < (\<Sum>i < M. c i)"
  defines "e' \<equiv> (\<Sum>i < M. c i * of_bool (x i)) / (\<Sum>i < M. c i)"
  shows "0 \<le> e'" and "e' \<le> 1"
    and "\<And>i. i < M \<Longrightarrow> 0 < c i \<Longrightarrow> 0 < bernoulli_factor e' (x i)"
    and "0 \<le> (\<Sum>i < M. c i * ln (bernoulli_factor e' (x i) / bernoulli_factor e (x i)))"
proof -
  let ?u = "\<Sum>i < M. c i" and ?a = "\<Sum>i < M. c i * of_bool (x i)"
  have a0: "0 \<le> ?a" using c by (intro sum_nonneg) simp
  have ua: "?u - ?a = (\<Sum>i < M. c i * (1 - of_bool (x i)))"
    by (simp add: sum_subtractf right_diff_distrib)
  have au: "0 \<le> ?u - ?a" unfolding ua using c by (intro sum_nonneg) simp
  show e0: "0 \<le> e'" using a0 u by (simp add: e'_def)
  show e1: "e' \<le> 1" using au u by (simp add: e'_def)
  have one_minus: "1 - e' = (?u - ?a) / ?u"
    using u by (simp add: e'_def field_simps)
  show b': "0 < bernoulli_factor e' (x i)" if i: "i < M" and ci: "0 < c i" for i
  proof (cases "x i")
    case True
    have "c i * of_bool (x i) \<le> ?a"
      using i c by (intro member_le_sum) auto
    with True ci have "0 < ?a" by simp
    with u True show ?thesis by (simp add: bernoulli_factor_def e'_def)
  next
    case False
    have "c i * (1 - of_bool (x i)) \<le> ?u - ?a"
      unfolding ua using i c by (intro member_le_sum) auto
    with False ci have "0 < ?u - ?a" by simp
    with u False show ?thesis by (simp add: bernoulli_factor_def one_minus)
  qed
  have tm: "c i * ln (bernoulli_factor e (x i) / bernoulli_factor e' (x i))
              \<le> c i * of_bool (x i) * (e / e') + c i * (1 - of_bool (x i)) * ((1 - e) / (1 - e')) - c i"
    if i: "i < M" for i
  proof (cases "c i = 0")
    case True
    then show ?thesis by simp
  next
    case False
    with c [OF i] have ci: "0 < c i" by simp
    have "ln (bernoulli_factor e (x i) / bernoulli_factor e' (x i))
            \<le> bernoulli_factor e (x i) / bernoulli_factor e' (x i) - 1"
      using b [OF i ci] b' [OF i ci] by (rule ln_ratio_le)
    then have "c i * ln (bernoulli_factor e (x i) / bernoulli_factor e' (x i))
            \<le> c i * (bernoulli_factor e (x i) / bernoulli_factor e' (x i) - 1)"
      using ci by (intro mult_left_mono) simp_all
    also have "\<dots> = c i * of_bool (x i) * (e / e') + c i * (1 - of_bool (x i)) * ((1 - e) / (1 - e')) - c i"
      by (cases "x i") (simp_all add: bernoulli_factor_def algebra_simps)
    finally show ?thesis .
  qed
  have p1: "?a * (e / e') \<le> ?u * e"
  proof (cases "?a = 0")
    case True
    with u e show ?thesis by simp
  next
    case False
    with u show ?thesis by (simp add: e'_def)
  qed
  have p2: "(?u - ?a) * ((1 - e) / (1 - e')) \<le> ?u * (1 - e)"
  proof (cases "?u - ?a = 0")
    case True
    with u e show ?thesis by simp
  next
    case False
    with u show ?thesis unfolding one_minus by simp
  qed
  have "(\<Sum>i < M. c i * ln (bernoulli_factor e (x i) / bernoulli_factor e' (x i)))
          \<le> (\<Sum>i < M. c i * of_bool (x i) * (e / e')
                      + c i * (1 - of_bool (x i)) * ((1 - e) / (1 - e')) - c i)"
    by (intro sum_mono tm) simp
  also have "\<dots> = ?a * (e / e') + (?u - ?a) * ((1 - e) / (1 - e')) - ?u"
    unfolding ua by (simp only: sum_subtractf sum.distrib sum_distrib_right [symmetric])
  also have "\<dots> \<le> 0"
    using p1 p2 by (simp add: algebra_simps)
  finally have neg: "(\<Sum>i < M. c i * ln (bernoulli_factor e (x i) / bernoulli_factor e' (x i))) \<le> 0" .
  have "(\<Sum>i < M. c i * ln (bernoulli_factor e' (x i) / bernoulli_factor e (x i)))
          = - (\<Sum>i < M. c i * ln (bernoulli_factor e (x i) / bernoulli_factor e' (x i)))"
    unfolding sum_negf [symmetric]
  proof (rule sum.cong [OF refl])
    fix i assume "i \<in> {..<M}"
    then have i: "i < M" by simp
    show "c i * ln (bernoulli_factor e' (x i) / bernoulli_factor e (x i))
            = - (c i * ln (bernoulli_factor e (x i) / bernoulli_factor e' (x i)))"
    proof (cases "c i = 0")
      case True
      then show ?thesis by simp
    next
      case False
      with c [OF i] have ci: "0 < c i" by simp
      from b [OF i ci] b' [OF i ci] show ?thesis by (simp add: ln_divide_pos algebra_simps)
    qed
  qed
  with neg show "0 \<le> (\<Sum>i < M. c i * ln (bernoulli_factor e' (x i) / bernoulli_factor e (x i)))"
    by simp
qed

lemma bernoulli_factor_range:
  assumes "0 \<le> e" "e \<le> 1"
  shows "0 \<le> bernoulli_factor e x" "bernoulli_factor e x \<le> 1"
  using assms by (simp_all add: bernoulli_factor_def)

lemma prod_pos_factor:
  fixes f :: "nat \<Rightarrow> real"
  assumes "\<And>d. d < D \<Longrightarrow> 0 \<le> f d" and "0 < (\<Prod>d < D. f d)" and "d < D"
  shows "0 < f d"
proof -
  have "f d \<noteq> 0"
  proof
    assume "f d = 0"
    with assms(3) have "(\<Prod>d < D. f d) = 0" by (auto simp: prod_zero_iff)
    with assms(2) show False by simp
  qed
  with assms(1) [OF assms(3)] show ?thesis by simp
qed

lemma em_step_abstract:
  fixes w :: "nat \<Rightarrow> real" and x :: "nat \<Rightarrow> nat \<Rightarrow> bool"
    and p p' :: "nat \<Rightarrow> real" and e e' :: "nat \<Rightarrow> nat \<Rightarrow> real"
    and s s' z :: "nat \<Rightarrow> nat \<Rightarrow> real" and u :: "nat \<Rightarrow> real" and N :: real
  assumes s_def: "\<And>i k. s i k = p k * (\<Prod>d < D. bernoulli_factor (e k d) (x i d))"
    and z_def: "\<And>i k. z i k = s i k / (\<Sum>k < K. s i k)"
    and u_def: "\<And>k. u k = (\<Sum>i < M. w i * z i k)"
    and N_def: "N = (\<Sum>i < M. w i)"
    and p'_def: "\<And>k. p' k = u k / N"
    and e'_def: "\<And>k d. e' k d = (\<Sum>i < M. w i * z i k * of_bool (x i d)) / u k"
    and s'_def: "\<And>i k. s' i k = p' k * (\<Prod>d < D. bernoulli_factor (e' k d) (x i d))"
    and w: "\<And>i. i < M \<Longrightarrow> 0 < w i"
    and p0: "\<And>k. k < K \<Longrightarrow> 0 \<le> p k"
    and psum: "(\<Sum>k < K. p k) \<le> 1"
    and e01: "\<And>k d. k < K \<Longrightarrow> d < D \<Longrightarrow> 0 \<le> e k d \<and> e k d \<le> 1"
    and rowpos: "\<And>i. i < M \<Longrightarrow> \<exists>k < K. 0 < s i k"
    and colpos: "\<And>k. k < K \<Longrightarrow> \<exists>i < M. 0 < s i k"
  shows "\<And>k. k < K \<Longrightarrow> 0 < u k"
    and "\<And>k. k < K \<Longrightarrow> 0 \<le> p' k"
    and "(\<Sum>k < K. p' k) \<le> 1"
    and "\<And>k d. k < K \<Longrightarrow> d < D \<Longrightarrow> 0 \<le> e' k d \<and> e' k d \<le> 1"
    and "\<And>i k. i < M \<Longrightarrow> k < K \<Longrightarrow> 0 < s i k \<Longrightarrow> 0 < s' i k"
    and "\<And>i. i < M \<Longrightarrow> 0 < (\<Sum>k < K. s i k)"
    and "(\<Sum>i < M. w i * ln (\<Sum>k < K. s i k)) \<le> (\<Sum>i < M. w i * ln (\<Sum>k < K. s' i k))"
proof -
  let ?S = "\<lambda>i. \<Sum>k < K. s i k" and ?S' = "\<lambda>i. \<Sum>k < K. s' i k"
  let ?c = "\<lambda>k i. w i * z i k"
  have bf0: "0 \<le> bernoulli_factor (e k d) (x i d)" if "k < K" "d < D" for k d i
    using e01 [OF that] by (simp add: bernoulli_factor_range)
  have s0: "0 \<le> s i k" if "k < K" for i k
    unfolding s_def using p0 [OF that] bf0 [OF that]
    by (intro mult_nonneg_nonneg prod_nonneg) auto
  show Spos: "0 < ?S i" if i: "i < M" for i
  proof -
    from rowpos [OF i] obtain k where k: "k < K" "0 < s i k" by blast
    have "s i k \<le> ?S i" using k(1) s0 by (intro member_le_sum) auto
    with k(2) show ?thesis by simp
  qed
  have z0: "0 \<le> z i k" if "i < M" "k < K" for i k
    unfolding z_def using s0 [OF that(2)] Spos [OF that(1)] by simp
  have zpos: "0 < z i k \<longleftrightarrow> 0 < s i k" if "i < M" "k < K" for i k
    unfolding z_def using Spos [OF that(1)] by (simp add: zero_less_divide_iff)
  have zsum: "(\<Sum>k < K. z i k) = 1" if "i < M" for i
    unfolding z_def using Spos [OF that] by (simp add: sum_divide_distrib [symmetric])
  have c0: "0 \<le> ?c k i" if "i < M" "k < K" for i k
    using w [OF that(1)] z0 [OF that] by simp
  have cpos: "0 < ?c k i \<longleftrightarrow> 0 < s i k" if "i < M" "k < K" for i k
    using w [OF that(1)] zpos [OF that] by (simp add: zero_less_mult_iff)
  show upos: "0 < u k" if k: "k < K" for k
  proof -
    from colpos [OF k] obtain i where i: "i < M" "0 < s i k" by blast
    have "?c k i \<le> u k" unfolding u_def using i(1) c0 k by (intro member_le_sum) auto
    with cpos [OF i(1) k] i(2) show ?thesis by simp
  qed
  have N0: "0 \<le> N" unfolding N_def using w by (intro sum_nonneg) (simp add: less_imp_le)
  have usum: "(\<Sum>k < K. u k) = N"
  proof -
    have "(\<Sum>k < K. u k) = (\<Sum>i < M. \<Sum>k < K. w i * z i k)"
      unfolding u_def by (rule sum.swap)
    also have "\<dots> = (\<Sum>i < M. w i)"
      by (rule sum.cong [OF refl]) (simp add: sum_distrib_left [symmetric] zsum)
    finally show ?thesis by (simp add: N_def)
  qed
  have Npos: "0 < N" if "k < K" for k
  proof -
    have "u k \<le> (\<Sum>k < K. u k)" using that upos by (intro member_le_sum) (auto simp: less_imp_le)
    with upos [OF that] usum show ?thesis by simp
  qed
  show p'0: "0 \<le> p' k" if k: "k < K" for k
    unfolding p'_def using upos [OF k] N0 by simp
  have p'pos: "0 < p' k" if k: "k < K" for k
    unfolding p'_def using upos [OF k] Npos [OF k] by simp
  show p'sum: "(\<Sum>k < K. p' k) \<le> 1"
  proof (cases "K = 0")
    case True
    then show ?thesis by simp
  next
    case False
    then have "0 < N" using Npos [of 0] by simp
    then show ?thesis unfolding p'_def by (simp add: sum_divide_distrib [symmetric] usum)
  qed
  have ppos: "0 < p k" if k: "k < K" for k
  proof -
    from colpos [OF k] obtain i where "0 < s i k" by blast
    then have "p k \<noteq> 0" unfolding s_def by auto
    with p0 [OF k] show ?thesis by simp
  qed
  have bpos: "0 < bernoulli_factor (e k d) (x i d)"
    if "i < M" "k < K" "d < D" "0 < ?c k i" for i k d
  proof -
    from that cpos have "0 < s i k" by simp
    then have P: "0 < (\<Prod>d < D. bernoulli_factor (e k d) (x i d))"
      unfolding s_def using ppos [OF that(2)] by (simp add: zero_less_mult_iff)
    have nn: "\<And>d. d < D \<Longrightarrow> 0 \<le> bernoulli_factor (e k d) (x i d)"
      using bf0 [OF that(2)] by simp
    from nn P that(3) show ?thesis by (rule prod_pos_factor)
  qed
  have mle: "0 \<le> e' k d \<and> e' k d \<le> 1
      \<and> (\<forall>i < M. 0 < ?c k i \<longrightarrow> 0 < bernoulli_factor (e' k d) (x i d))
      \<and> 0 \<le> (\<Sum>i < M. ?c k i * ln (bernoulli_factor (e' k d) (x i d)
                                        / bernoulli_factor (e k d) (x i d)))"
    if k: "k < K" and d: "d < D" for k d
  proof -
    have e'': "e' k d = (\<Sum>i < M. ?c k i * of_bool (x i d)) / (\<Sum>i < M. ?c k i)"
      unfolding e'_def u_def ..
    have cu: "0 < (\<Sum>i < M. ?c k i)" using upos [OF k] by (simp add: u_def)
    from e01 [OF k d] have e0: "0 \<le> e k d" and e1: "e k d \<le> 1" by simp_all
    have c: "\<And>i. i < M \<Longrightarrow> 0 \<le> ?c k i" using c0 k by simp
    have b: "\<And>i. i < M \<Longrightarrow> 0 < ?c k i \<Longrightarrow> 0 < bernoulli_factor (e k d) (x i d)"
      using bpos k d by simp
    note r = bernoulli_mle [where c = "?c k" and x = "\<lambda>i. x i d" and e = "e k d" and M = M,
        OF c e0 e1 b cu, folded e'']
    from r(1) r(2) r(3) r(4) show ?thesis by blast
  qed
  show e'01: "0 \<le> e' k d \<and> e' k d \<le> 1" if "k < K" "d < D" for k d
    using mle [OF that] by simp
  have b'pos: "0 < bernoulli_factor (e' k d) (x i d)"
    if "i < M" "k < K" "d < D" "0 < ?c k i" for i k d
    using mle [OF that(2,3)] that(1,4) by simp
  show keep: "0 < s' i k" if i: "i < M" and k: "k < K" and sik: "0 < s i k" for i k
  proof -
    from cpos [OF i k] sik have "0 < ?c k i" by simp
    with b'pos i k have "0 < (\<Prod>d < D. bernoulli_factor (e' k d) (x i d))"
      by (intro prod_pos) auto
    with p'pos [OF k] show ?thesis unfolding s'_def by simp
  qed
  have s'0: "0 \<le> s' i k" if "k < K" for i k
    unfolding s'_def using p'0 [OF that] e'01 [OF that]
    by (intro mult_nonneg_nonneg prod_nonneg) (auto simp: bernoulli_factor_range)
  have jensen: "(\<Sum>k < K. z i k * ln (s' i k / s i k)) \<le> ln (?S' i) - ln (?S i)"
    if i: "i < M" for i
    unfolding z_def
    by (rule jensen_row(2) [where s = "s i" and s' = "s' i"])
       (use s0 s'0 keep [OF i] Spos [OF i] in auto)
  have split: "?c k i * ln (s' i k / s i k)
      = ?c k i * ln (p' k / p k)
        + (\<Sum>d < D. ?c k i * ln (bernoulli_factor (e' k d) (x i d)
                                   / bernoulli_factor (e k d) (x i d)))"
    if i: "i < M" and k: "k < K" for i k
  proof (cases "?c k i = 0")
    case True
    then show ?thesis by (simp del: mult_eq_0_iff)
  next
    case False
    with c0 [OF i k] have ci: "0 < ?c k i" by (simp del: mult_eq_0_iff)
    have r: "0 < bernoulli_factor (e' k d) (x i d) / bernoulli_factor (e k d) (x i d)"
      if "d < D" for d
      using bpos [OF i k that ci] b'pos [OF i k that ci] by simp
    have "s' i k / s i k = (p' k / p k)
        * (\<Prod>d < D. bernoulli_factor (e' k d) (x i d) / bernoulli_factor (e k d) (x i d))"
      unfolding s_def s'_def by (simp add: prod_dividef)
    also have "ln \<dots> = ln (p' k / p k)
        + ln (\<Prod>d < D. bernoulli_factor (e' k d) (x i d) / bernoulli_factor (e k d) (x i d))"
      using p'pos [OF k] ppos [OF k] r by (intro ln_mult_pos prod_pos) auto
    also have "ln (\<Prod>d < D. bernoulli_factor (e' k d) (x i d) / bernoulli_factor (e k d) (x i d))
        = (\<Sum>d < D. ln (bernoulli_factor (e' k d) (x i d) / bernoulli_factor (e k d) (x i d)))"
    proof (rule ln_prod)
      show "finite {..<D}" by simp
      fix d assume "d \<in> {..<D}"
      then have "d < D" by simp
      from r [OF this]
      show "bernoulli_factor (e' k d) (x i d) / bernoulli_factor (e k d) (x i d) \<noteq> 0"
        by (rule less_imp_neq [THEN not_sym])
    qed
    finally show ?thesis by (simp add: distrib_left sum_distrib_left)
  qed
  have "0 \<le> (\<Sum>k < K. u k * ln ((u k / N) / p k))"
    by (rule gibbs_mixing [OF upos ppos usum psum])
  moreover have "0 \<le> (\<Sum>k < K. \<Sum>d < D. \<Sum>i < M. ?c k i
        * ln (bernoulli_factor (e' k d) (x i d) / bernoulli_factor (e k d) (x i d)))"
  proof (rule sum_nonneg, rule sum_nonneg)
    fix k d assume "k \<in> {..<K}" "d \<in> {..<D}"
    then have "k < K" "d < D" by simp_all
    from mle [OF this]
    show "0 \<le> (\<Sum>i < M. ?c k i
        * ln (bernoulli_factor (e' k d) (x i d) / bernoulli_factor (e k d) (x i d)))"
      by simp
  qed
  ultimately have "0 \<le> (\<Sum>k < K. u k * ln (p' k / p k))
      + (\<Sum>k < K. \<Sum>d < D. \<Sum>i < M. ?c k i
            * ln (bernoulli_factor (e' k d) (x i d) / bernoulli_factor (e k d) (x i d)))"
    by (simp add: p'_def)
  also have "\<dots> = (\<Sum>k < K. \<Sum>i < M. ?c k i * ln (s' i k / s i k))"
  proof -
    have "(\<Sum>k < K. \<Sum>i < M. ?c k i * ln (s' i k / s i k))
        = (\<Sum>k < K. \<Sum>i < M. ?c k i * ln (p' k / p k)
              + (\<Sum>d < D. ?c k i * ln (bernoulli_factor (e' k d) (x i d)
                                   / bernoulli_factor (e k d) (x i d))))"
      by (intro sum.cong refl) (simp add: split)
    also have "\<dots> = (\<Sum>k < K. u k * ln (p' k / p k))
        + (\<Sum>k < K. \<Sum>i < M. \<Sum>d < D. ?c k i
              * ln (bernoulli_factor (e' k d) (x i d) / bernoulli_factor (e k d) (x i d)))"
      by (simp add: sum.distrib u_def sum_distrib_right)
    also have "(\<Sum>k < K. \<Sum>i < M. \<Sum>d < D. ?c k i
              * ln (bernoulli_factor (e' k d) (x i d) / bernoulli_factor (e k d) (x i d)))
        = (\<Sum>k < K. \<Sum>d < D. \<Sum>i < M. ?c k i
              * ln (bernoulli_factor (e' k d) (x i d) / bernoulli_factor (e k d) (x i d)))"
      by (intro sum.cong refl sum.swap)
    finally show ?thesis by simp
  qed
  also have "\<dots> = (\<Sum>i < M. w i * (\<Sum>k < K. z i k * ln (s' i k / s i k)))"
    by (subst sum.swap) (simp add: sum_distrib_left mult.assoc)
  also have "\<dots> \<le> (\<Sum>i < M. w i * (ln (?S' i) - ln (?S i)))"
    using w jensen by (intro sum_mono mult_left_mono) (auto simp: less_imp_le)
  finally show "(\<Sum>i < M. w i * ln (?S i)) \<le> (\<Sum>i < M. w i * ln (?S' i))"
    by (simp add: right_diff_distrib sum_subtractf)
qed

section \<open>The EM update on the model\<close>

lemma prod_list_map2_nth:
  fixes g :: "'a \<Rightarrow> 'b \<Rightarrow> real"
  assumes "length p = length row"
  shows "prod_list (map2 g p row) = (\<Prod>d < length p. g (p ! d) (row ! d))"
  using assms
proof (induction p row rule: list_induct2)
  case Nil
  show ?case by simp
next
  case (Cons a p b row)
  then show ?case by (simp add: prod.lessThan_Suc_shift del: prod.lessThan_Suc)
qed

lemma bernoulli_prob_prod:
  assumes "length p = D" and "length row = D"
  shows "bernoulli_prob p row = (\<Prod>d < D. bernoulli_factor (p ! d) (row ! d))"
  using prod_list_map2_nth [of p row bernoulli_factor] assms
  by (simp add: bernoulli_prob_def)

lemma support_nth:
  assumes "i < length (rows observations)" and "k < nat (number_of_components m)"
  shows "rows (observation_emission_support m observations) ! i ! k
           = support_entry m observations i k"
  using assms by (simp add: observation_emission_support_rows support_entry_def)

lemma support_row_sum:
  assumes "i < length (rows observations)"
  shows "sum_list (rows (observation_emission_support m observations) ! i)
           = (\<Sum>k < nat (number_of_components m). support_entry m observations i k)"
  using assms
  by (simp add: observation_emission_support_rows support_entry_def sum_list_upt)

lemma sum_list_map2_nth:
  fixes f :: "'a \<Rightarrow> 'b \<Rightarrow> real"
  assumes "length xs = length ys"
  shows "sum_list (map2 f xs ys) = (\<Sum>i < length xs. f (xs ! i) (ys ! i))"
  using assms
proof (induction xs ys rule: list_induct2)
  case Nil
  show ?case by simp
next
  case (Cons a xs b ys)
  then show ?case by (simp add: sum.lessThan_Suc_shift del: sum.lessThan_Suc)
qed

lemma log_likelihood_sum:
  assumes "length weights = length (rows observations)"
  shows "log_likelihood_from_support (observation_emission_support m observations) weights
       = (\<Sum>i < length (rows observations).
            real (weights ! i)
              * ln (\<Sum>k < nat (number_of_components m). support_entry m observations i k))"
proof -
  let ?S = "observation_emission_support m observations"
  have l: "length (map sum_list (rows ?S)) = length weights"
    using assms by (simp add: observation_emission_support_rows)
  have "log_likelihood_from_support ?S weights
      = (\<Sum>i < length (rows observations). ln (map sum_list (rows ?S) ! i) * real (weights ! i))"
    unfolding log_likelihood_from_support_def
    using sum_list_map2_nth [OF l, of "\<lambda>s w. ln s * real w"] assms
    by (simp add: observation_emission_support_rows)
  also have "\<dots> = (\<Sum>i < length (rows observations).
            real (weights ! i)
              * ln (\<Sum>k < nat (number_of_components m). support_entry m observations i k))"
  proof (rule sum.cong [OF refl])
    fix i assume "i \<in> {..<length (rows observations)}"
    then have i: "i < length (rows observations)" by simp
    then have "map sum_list (rows ?S) ! i = sum_list (rows ?S ! i)"
      by (simp add: observation_emission_support_rows)
    with support_row_sum [OF i, of m]
    show "ln (map sum_list (rows ?S) ! i) * real (weights ! i)
        = real (weights ! i)
              * ln (\<Sum>k < nat (number_of_components m). support_entry m observations i k)"
      by simp
  qed
  finally show ?thesis .
qed

lemma posterior_nth:
  assumes "i < length (rows support)" and "k < length (rows support ! i)"
  shows "rows (posterior_probability_of_class_given_support support) ! i ! k
           = rows support ! i ! k / sum_list (rows support ! i)"
  using assms by (simp add: posterior_rows)

lemma m_step_mixing:
  "fst (m_step zstar unique_dataset weights)
     = map (\<lambda>k. (\<Sum>i < length (rows zstar). rows zstar ! i ! k * real (weights ! i))
                  / real (sum_list weights))
         [0..<ncols zstar]"
  by (simp add: m_step_def Let_def shape_def sum_list_upt)

lemma m_step_emission:
  "snd (m_step zstar unique_dataset weights)
     = \<lparr> ncols = ncols unique_dataset,
         rows = map (\<lambda>k. map (\<lambda>d.
                    (\<Sum>i < length (rows unique_dataset).
                        real (weights ! i) * rows zstar ! i ! k
                          * of_bool (rows unique_dataset ! i ! d))
                    / (\<Sum>i < length (rows zstar). rows zstar ! i ! k * real (weights ! i)))
                  [0..<ncols unique_dataset])
                [0..<ncols zstar] \<rparr>"
  by (simp add: m_step_def Let_def shape_def sum_list_upt maximise_emissions_def cong: map_cong)

lemma em_step:
  assumes inv: "em_invariant m U W"
  shows "em_invariant (em_update m U W) U W"
    and "log_likelihood_from_support (observation_emission_support m U) W
           \<le> log_likelihood_from_support (observation_emission_support (em_update m U W) U) W"
proof -
  define K where "K = nat (number_of_components m)"
  define M where "M = length (rows U)"
  define D where "D = ncols U"
  define w where "w i = real (W ! i)" for i
  define x where "x i d = rows U ! i ! d" for i d
  define p where "p k = mixing_coefficients m ! k" for k
  define e where "e k d = rows (emission_probabilities m) ! k ! d" for k d
  define s where "s i k = p k * (\<Prod>d < D. bernoulli_factor (e k d) (x i d))" for i k
  define z where "z i k = s i k / (\<Sum>k < K. s i k)" for i k
  define u where "u k = (\<Sum>i < M. w i * z i k)" for k
  define N where "N = (\<Sum>i < M. w i)"
  define p' where "p' k = u k / N" for k
  define e' where "e' k d = (\<Sum>i < M. w i * z i k * of_bool (x i d)) / u k" for k d
  define s' where "s' i k = p' k * (\<Prod>d < D. bernoulli_factor (e' k d) (x i d))" for i k
  let ?m' = "em_update m U W"
  let ?S = "observation_emission_support m U"
  let ?Z = "posterior_probability_of_class_given_support ?S"
  note inv' = inv [unfolded em_invariant_def, folded K_def M_def D_def]
  from inv' have lm: "length (mixing_coefficients m) = K"
    and le: "length (rows (emission_probabilities m)) = K"
    and lek: "\<And>k. k < K \<Longrightarrow> length (rows (emission_probabilities m) ! k) = D"
    and rect: "rectangular U" and lW: "length W = M"
    and Wpos: "\<And>i. i < M \<Longrightarrow> 0 < W ! i"
    and mix0: "\<And>k. k < K \<Longrightarrow> 0 \<le> mixing_coefficients m ! k"
    and mixsum: "sum_list (mixing_coefficients m) \<le> 1"
    and em01: "\<And>k d. k < K \<Longrightarrow> d < D \<Longrightarrow>
                 0 \<le> rows (emission_probabilities m) ! k ! d
               \<and> rows (emission_probabilities m) ! k ! d \<le> 1"
    and rp: "\<And>i. i < M \<Longrightarrow> \<exists>k < K. 0 < support_entry m U i k"
    and cp: "\<And>k. k < K \<Longrightarrow> \<exists>i < M. 0 < support_entry m U i k"
    by simp_all
  have lrow: "length (rows U ! i) = D" if "i < M" for i
    using rect that by (simp add: rectangular_def list_all_length M_def D_def)
  have se: "support_entry m U i k = s i k" if "i < M" "k < K" for i k
    unfolding support_entry_def s_def p_def e_def x_def
    using bernoulli_prob_prod [OF lek [OF that(2)] lrow [OF that(1)]] by simp
  have w: "\<And>i. i < M \<Longrightarrow> 0 < w i" using Wpos by (simp add: w_def)
  have p0: "\<And>k. k < K \<Longrightarrow> 0 \<le> p k" using mix0 by (simp add: p_def)
  have psum: "(\<Sum>k < K. p k) \<le> 1"
    using mixsum by (simp add: sum_list_nth_sum lm p_def)
  have e01: "\<And>k d. k < K \<Longrightarrow> d < D \<Longrightarrow> 0 \<le> e k d \<and> e k d \<le> 1"
    using em01 by (simp add: e_def)
  have rowpos: "\<And>i. i < M \<Longrightarrow> \<exists>k < K. 0 < s i k" using rp se by force
  have colpos: "\<And>k. k < K \<Longrightarrow> \<exists>i < M. 0 < s i k" using cp se by force
  note R = em_step_abstract [where s = s and s' = s' and z = z and u = u and N = N
      and p = p and p' = p' and e = e and e' = e' and w = w and x = x and K = K and M = M and D = D]
  note pre = s_def z_def u_def N_def p'_def e'_def s'_def w p0 psum e01 rowpos colpos
  have abs2: "0 \<le> p' k" if "k < K" for k
    by (rule R(2)) (fact pre that)+
  have abs3: "(\<Sum>k < K. p' k) \<le> 1"
    by (rule R(3)) (fact pre)+
  have abs4: "0 \<le> e' k d \<and> e' k d \<le> 1" if "k < K" "d < D" for k d
    by (rule R(4)) (fact pre that)+
  have abs5: "0 < s' i k" if "i < M" "k < K" "0 < s i k" for i k
    by (rule R(5)) (fact pre that)+
  have abs7: "(\<Sum>i < M. w i * ln (\<Sum>k < K. s i k)) \<le> (\<Sum>i < M. w i * ln (\<Sum>k < K. s' i k))"
    by (rule R(7)) (fact pre)+
  have K': "nat (number_of_components ?m') = K"
    by (simp add: em_update_def K_def)
  have ncZ: "ncols ?Z = K"
    by (simp add: posterior_probability_of_class_given_support_def
          observation_emission_support_ncols K_def)
  have lZ: "length (rows ?Z) = M"
    by (simp add: posterior_rows observation_emission_support_rows M_def)
  have Znth: "rows ?Z ! i ! k = z i k" if i: "i < M" and k: "k < K" for i k
  proof -
    have li: "i < length (rows ?S)" using i by (simp add: observation_emission_support_rows M_def)
    have lk: "k < length (rows ?S ! i)"
      using i k by (simp add: observation_emission_support_rows M_def K_def)
    have "(\<Sum>k < K. support_entry m U i k) = (\<Sum>k < K. s i k)"
      by (rule sum.cong [OF refl]) (simp add: se i)
    with posterior_nth [OF li lk] support_nth [of i U k m] support_row_sum [of i U m] i k
    show ?thesis by (simp add: z_def se M_def K_def)
  qed
  have useq: "(\<Sum>i < M. rows ?Z ! i ! k * real (W ! i)) = u k" if k: "k < K" for k
    unfolding u_def by (rule sum.cong [OF refl]) (simp add: Znth k w_def)
  have Neq: "real (sum_list W) = N"
    by (simp add: sum_list_nth_sum lW N_def w_def)
  have mix': "mixing_coefficients ?m' = map p' [0..<K]"
    unfolding em_update_def
    by (simp add: m_step_mixing ncZ lZ useq Neq p'_def cong: map_cong)
  have em': "emission_probabilities ?m'
      = \<lparr> ncols = D, rows = map (\<lambda>k. map (e' k) [0..<D]) [0..<K] \<rparr>"
  proof -
    have "(\<Sum>i < M. real (W ! i) * rows ?Z ! i ! k * of_bool (rows U ! i ! d))
            / (\<Sum>i < M. rows ?Z ! i ! k * real (W ! i)) = e' k d" if k: "k < K" for k d
    proof -
      have "(\<Sum>i < M. real (W ! i) * rows ?Z ! i ! k * of_bool (rows U ! i ! d))
              = (\<Sum>i < M. w i * z i k * of_bool (x i d))"
        by (rule sum.cong [OF refl]) (simp add: Znth k w_def x_def)
      then show ?thesis by (simp add: useq k e'_def)
    qed
    then show ?thesis
      unfolding em_update_def
      by (simp add: m_step_emission ncZ lZ M_def [symmetric] D_def [symmetric] cong: map_cong)
  qed
  have se': "support_entry ?m' U i k = s' i k" if i: "i < M" and k: "k < K" for i k
  proof -
    have "length (map (e' k) [0..<D]) = D" by simp
    from bernoulli_prob_prod [OF this lrow [OF i]]
    have "bernoulli_prob (map (e' k) [0..<D]) (rows U ! i)
            = (\<Prod>d < D. bernoulli_factor (e' k d) (x i d))"
      by (simp add: x_def)
    then show ?thesis
      unfolding support_entry_def s'_def using k by (simp add: mix' em')
  qed
  show "em_invariant ?m' U W"
    unfolding em_invariant_def K' M_def [symmetric] D_def [symmetric]
  proof (intro conjI allI impI)
    show "length (mixing_coefficients ?m') = K" by (simp add: mix')
    show "length (rows (emission_probabilities ?m')) = K" by (simp add: em')
    show "length (rows (emission_probabilities ?m') ! k) = D" if "k < K" for k
      using that by (simp add: em')
    show "rectangular U" by (rule rect)
    show "length W = M" by (rule lW)
    show "0 < W ! i" if "i < M" for i using Wpos that by simp
    show "0 \<le> mixing_coefficients ?m' ! k" if "k < K" for k
      using abs2 [OF that] that by (simp add: mix')
    show "sum_list (mixing_coefficients ?m') \<le> 1"
      using abs3 by (simp add: mix' sum_list_upt)
    show "0 \<le> rows (emission_probabilities ?m') ! k ! d" if "k < K" "d < D" for k d
      using abs4 [OF that] that by (simp add: em')
    show "rows (emission_probabilities ?m') ! k ! d \<le> 1" if "k < K" "d < D" for k d
      using abs4 [OF that] that by (simp add: em')
    show "\<exists>k < K. 0 < support_entry ?m' U i k" if i: "i < M" for i
    proof -
      from rowpos [OF i] obtain k where k: "k < K" "0 < s i k" by blast
      from abs5 [OF i k] se' [OF i k(1)] k(1) show ?thesis by auto
    qed
    show "\<exists>i < M. 0 < support_entry ?m' U i k" if k: "k < K" for k
    proof -
      from colpos [OF k] obtain i where i: "i < M" "0 < s i k" by blast
      from abs5 [OF i(1) k i(2)] se' [OF i(1) k] i(1) show ?thesis by auto
    qed
  qed
  have "log_likelihood_from_support ?S W = (\<Sum>i < M. w i * ln (\<Sum>k < K. s i k))"
    unfolding log_likelihood_sum [OF lW [unfolded M_def]] M_def [symmetric] K_def [symmetric]
    by (intro sum.cong refl arg_cong2 [where f = "(*)"] arg_cong [where f = ln])
       (simp_all add: se w_def)
  moreover
  have "log_likelihood_from_support (observation_emission_support ?m' U) W
          = (\<Sum>i < M. w i * ln (\<Sum>k < K. s' i k))"
    unfolding log_likelihood_sum [OF lW [unfolded M_def]] M_def [symmetric] K'
    by (intro sum.cong refl arg_cong2 [where f = "(*)"] arg_cong [where f = ln])
       (simp_all add: se' w_def)
  ultimately show "log_likelihood_from_support ?S W
           \<le> log_likelihood_from_support (observation_emission_support ?m' U) W"
    using abs7 by simp
qed

section \<open>The trace of a fit is sorted\<close>

lemma fit_iteration_em_update:
  assumes "\<not> declares_convergence (previous_log_likelihood s)
             (log_likelihood_from_support (observation_emission_support (self s) U) W) t"
  shows "self (fit_iteration t tr U W s) = em_update (self s) U W"
    and "trace (fit_iteration t True U W s)
           = trace s @ [log_likelihood_from_support (observation_emission_support (self s) U) W]"
    and "current_log_likelihood (fit_iteration t tr U W s)
           = Some (log_likelihood_from_support (observation_emission_support (self s) U) W)"
    and "converged_flag (fit_iteration t tr U W s) = converged_flag s"
  using assms by (simp_all add: fit_iteration_continue em_update_def)

lemma monotone_invariant_step:
  assumes I: "monotone_invariant U W s" and n: "\<not> converged_flag (fit_iteration t True U W s)"
  shows "monotone_invariant U W (fit_iteration t True U W s)"
proof -
  let ?L = "log_likelihood_from_support (observation_emission_support (self s) U) W"
  from n have d: "\<not> declares_convergence (previous_log_likelihood s) ?L t"
    by (simp add: fit_iteration_converged_iff)
  note f = fit_iteration_em_update [OF d]
  from I have inv: "em_invariant (self s) U W" and srt: "sorted (trace s)"
    and le: "\<forall>y \<in> set (trace s). y \<le> ?L" and nc: "\<not> converged_flag s"
    by (simp_all add: monotone_invariant_def)
  note step = em_step [OF inv]
  have "\<forall>y \<in> set (trace s @ [?L]).
          y \<le> log_likelihood_from_support
                 (observation_emission_support (em_update (self s) U W) U) W"
    using le step(2) by auto
  moreover have "sorted (trace s @ [?L])"
    using srt le by (simp add: sorted_append)
  ultimately show ?thesis
    unfolding monotone_invariant_def f using step(1) nc by simp
qed

lemma sorted_le_last:
  fixes xs :: "real list"
  assumes "sorted xs" and "x \<in> set xs"
  shows "x \<le> last xs"
  using assms by (induction xs rule: rev_induct) (auto simp: sorted_append)

lemma fit_trace_sorted:
  assumes run: "fit_loop il t True U W s0 = Some sf"
    and I: "monotone_invariant U W s0"
  shows "sorted (trace sf @ (case current_log_likelihood sf of None \<Rightarrow> [] | Some c \<Rightarrow> [c]))"
proof -
  have step: "monotone_invariant U W (fit_iteration t True U W x)"
    if "monotone_invariant U W x" "loop_condition il x"
       "\<not> converged_flag (fit_iteration t True U W x)" for x
    using that(1,3) by (rule monotone_invariant_step)
  from fit_loop_cases [where I = "monotone_invariant U W", OF run I step]
  show ?thesis
  proof
    assume "\<exists>x. monotone_invariant U W x \<and> loop_condition il x
              \<and> sf = fit_iteration t True U W x \<and> converged_flag sf"
    then obtain x where x: "monotone_invariant U W x" "sf = fit_iteration t True U W x"
      "converged_flag sf" by blast
    let ?L = "log_likelihood_from_support (observation_emission_support (self x) U) W"
    from x have d: "declares_convergence (previous_log_likelihood x) ?L t"
      by (simp add: fit_iteration_converged_iff monotone_invariant_def)
    from x(1) have "sorted (trace x)" "\<forall>y \<in> set (trace x). y \<le> ?L"
      by (simp_all add: monotone_invariant_def)
    then show ?thesis
      unfolding x(2) fit_iteration_stop [OF d] by (simp add: sorted_append)
  next
    assume "monotone_invariant U W sf \<and> \<not> loop_condition il sf"
    then have "sorted (trace sf)"
      and "current_log_likelihood sf = None \<and> trace sf = []
         \<or> trace sf \<noteq> [] \<and> current_log_likelihood sf = Some (last (trace sf))"
      by (simp_all add: monotone_invariant_def)
    then show ?thesis
      by (auto simp: sorted_append intro: sorted_le_last)
  qed
qed

lemma validate_Inr_iff:
  "validate m = Inr u \<longleftrightarrow>
     int (length (mixing_coefficients m)) = number_of_components m
   \<and> isclose (sum_list (mixing_coefficients m)) 1 (1 / 10 ^ 5) (1 / 10 ^ 8)
   \<and> bounded_between_zero_and_one (mixing_coefficients m)
   \<and> int (length (rows (emission_probabilities m))) = number_of_components m
   \<and> int (ncols (emission_probabilities m)) = number_of_dimensions m
   \<and> bounded_between_zero_and_one (concat (rows (emission_probabilities m)))"
  by (auto simp: validate_def Let_def)

lemma em_invariant_initial:
  assumes ok: "dataset_ok dataset"
    and dims: "int (ncols dataset) = number_of_dimensions m"
    and val: "validate m = Inr ()"
    and rect: "rectangular (emission_probabilities m)"
    and sum: "sum_list (mixing_coefficients m) \<le> 1"
    and rs: "rows_supported m dataset"
    and cs: "components_supported m dataset"
  shows "em_invariant m (fst (aggregate_dataset dataset)) (snd (aggregate_dataset dataset))"
proof -
  define U where "U = fst (aggregate_dataset dataset)"
  define W where "W = snd (aggregate_dataset dataset)"
  define K where "K = nat (number_of_components m)"
  let ?row = "\<lambda>r. map (\<lambda>k. mixing_coefficients m ! k
                 * bernoulli_prob (rows (emission_probabilities m) ! k) r) [0..<K]"
  have "np_unique (rows dataset) = (rows U, W)" and ncU: "ncols U = ncols dataset"
    by (simp_all add: U_def W_def aggregate_dataset_eq)
  note u = np_unique_props [OF this(1)]
  from val have lm: "length (mixing_coefficients m) = K"
    and bm: "bounded_between_zero_and_one (mixing_coefficients m)"
    and le: "length (rows (emission_probabilities m)) = K"
    and nce: "int (ncols (emission_probabilities m)) = number_of_dimensions m"
    and be: "bounded_between_zero_and_one (concat (rows (emission_probabilities m)))"
    by (auto simp: validate_Inr_iff K_def)
  from nce dims ncU have nc: "ncols (emission_probabilities m) = ncols U" by simp
  have lek: "length (rows (emission_probabilities m) ! k) = ncols U" if "k < K" for k
    using rect that le by (simp add: rectangular_def list_all_length nc)
  have rU: "rectangular U"
    using ok u(5) by (auto simp: dataset_ok_def rectangular_def list_all_iff ncU)
  have Wpos: "0 < W ! i" if i: "i < length (rows U)" for i
  proof -
    from i u(5) have "rows U ! i \<in> set (rows dataset)" by (metis nth_mem)
    then have "count_list (rows dataset) (rows U ! i) \<noteq> 0" by (simp add: count_list_0_iff)
    with u(3) i show ?thesis by simp
  qed
  have m0: "0 \<le> mixing_coefficients m ! k" if "k < K" for k
    using bm that lm by (simp add: bounded_between_zero_and_one_def list_all_length)
  have e01: "0 \<le> rows (emission_probabilities m) ! k ! d
           \<and> rows (emission_probabilities m) ! k ! d \<le> 1" if k: "k < K" and d: "d < ncols U" for k d
  proof -
    from k le have "rows (emission_probabilities m) ! k \<in> set (rows (emission_probabilities m))"
      by simp
    moreover from d lek [OF k]
    have "rows (emission_probabilities m) ! k ! d \<in> set (rows (emission_probabilities m) ! k)"
      by simp
    ultimately have "rows (emission_probabilities m) ! k ! d
        \<in> set (concat (rows (emission_probabilities m)))" by auto
    with be show ?thesis
      unfolding bounded_between_zero_and_one_def list_all_iff by blast
  qed
  have rows_S: "rows (observation_emission_support m dataset) = map ?row (rows dataset)"
    by (simp add: observation_emission_support_rows K_def)
  have rowpos: "\<exists>k < K. 0 < support_entry m U i k" if i: "i < length (rows U)" for i
  proof (rule ccontr)
    assume "\<not> (\<exists>k < K. 0 < support_entry m U i k)"
    then have "\<And>k. k \<in> {..<K} \<Longrightarrow> support_entry m U i k \<le> 0"
      by (metis lessThan_iff not_less)
    then have "(\<Sum>k < K. support_entry m U i k) \<le> 0"
      by (rule sum_nonpos)
    moreover from i u(5) have "rows U ! i \<in> set (rows dataset)" by (metis nth_mem)
    then have "?row (rows U ! i) \<in> set (rows (observation_emission_support m dataset))"
      unfolding rows_S set_map by (rule imageI)
    with rs have "0 < sum_list (?row (rows U ! i))" by (simp add: rows_supported_def)
    then have "0 < (\<Sum>k < K. support_entry m U i k)"
      by (simp add: sum_list_upt support_entry_def)
    ultimately show False by simp
  qed
  have colpos: "\<exists>i < length (rows U). 0 < support_entry m U i k" if k: "k < K" for k
  proof -
    from cs k obtain r where r: "r \<in> set (rows (observation_emission_support m dataset))"
      "0 < r ! k" by (auto simp: components_supported_def K_def)
    from r(1) obtain y where y: "y \<in> set (rows dataset)" "r = ?row y"
      by (auto simp: rows_S)
    from y(1) u(5) obtain i where i: "i < length (rows U)" "rows U ! i = y"
      by (metis in_set_conv_nth)
    from r(2) y(2) k i(2) have "0 < support_entry m U i k"
      by (simp add: support_entry_def)
    with i(1) show ?thesis by blast
  qed
  show ?thesis
    unfolding em_invariant_def U_def [symmetric] W_def [symmetric] K_def [symmetric]
    using lm le lek rU u(2) Wpos m0 sum e01 rowpos colpos by simp
qed

lemma drift_valid:
  "init 2 1 (mixing_coefficients drift_model) (emission_probabilities drift_model) = Inr drift_model"
  by (simp add: init_def validate_def drift_model_def isclose_def bounded_between_zero_and_one_def)

lemma drift_dataset_ok: "dataset_ok drift_dataset"
  by (simp add: dataset_ok_def rectangular_def drift_dataset_def)

lemma drift_dims: "int (ncols drift_dataset) = number_of_dimensions drift_model"
  by (simp add: drift_dataset_def drift_model_def)

lemma drift_aggregate: "aggregate_dataset drift_dataset = (example_unique, drift_counts)"
  by (simp add: aggregate_dataset_def drift_dataset_def np_unique_def example_unique_def
        drift_counts_def)

lemma drift_support_eq:
  "observation_emission_support drift_model example_unique = drift_support"
  by (simp add: observation_emission_support_def drift_model_def example_unique_def
       bernoulli_prob_for_observations_def bernoulli_prob_def bernoulli_factor_def
       drift_support_def upt_2)

lemma drift_support'_eq:
  "observation_emission_support drift_model' example_unique = drift_support'"
  by (simp add: observation_emission_support_def drift_model'_def example_unique_def
       bernoulli_prob_for_observations_def bernoulli_prob_def bernoulli_factor_def
       drift_support'_def upt_2)

lemma drift_posterior:
  "posterior_probability_of_class_given_support drift_support = drift_zstar"
  "posterior_probability_of_class_given_support drift_support' = drift_zstar"
  by (simp_all add: posterior_probability_of_class_given_support_def drift_support_def
        drift_support'_def drift_zstar_def)

lemma drift_m_step:
  "m_step drift_zstar example_unique drift_counts
     = (mixing_coefficients drift_model', emission_probabilities drift_model')"
  by (simp add: m_step_def maximise_emissions_def shape_def example_unique_def upt_2
        drift_zstar_def drift_counts_def drift_model'_def)

lemma drift_ll_values:
  "drift_ll = 2 * ln (100001 / 200000)" "drift_ll' = 2 * ln (1 / 2)"
  by (simp_all add: drift_ll_def drift_ll'_def log_likelihood_from_support_def
        drift_support_def drift_support'_def drift_counts_def)

lemma drift_gap: "drift_ll' < drift_ll - 1 / 10 ^ 6"
proof -
  have "ln (100000 / 100001 :: real) \<le> 100000 / 100001 - 1"
    by (rule ln_le_minus_one) simp
  moreover have "ln (100000 / 100001 :: real) = ln (1 / 2) - ln (100001 / 200000)"
    by (subst ln_divide_pos [symmetric]) simp_all
  ultimately have "ln (1 / 2 :: real) - ln (100001 / 200000) \<le> - (1 / 100001)"
    by simp
  then show ?thesis unfolding drift_ll_values by simp
qed

lemma drift_iteration_1:
  "fit_iteration t True example_unique drift_counts drift_initial = drift_state"
proof -
  have sel: "self drift_initial = drift_model"
    by (simp add: drift_initial_def)
  have "\<not> declares_convergence (previous_log_likelihood drift_initial)
          (log_likelihood_from_support
             (observation_emission_support (self drift_initial) example_unique) drift_counts) t"
    by (simp add: drift_initial_def declares_convergence_def)
  note c = fit_iteration_continue [OF this, of True, unfolded sel drift_support_eq
      drift_posterior drift_m_step fst_conv snd_conv]
  show ?thesis
    unfolding c
    by (simp add: drift_initial_def drift_state_def drift_model_def drift_model'_def drift_ll_def)
qed

lemma drift_iteration_2:
  "fit_iteration (1 / 10 ^ 6) True example_unique drift_counts drift_state = drift_final"
proof -
  have sel: "self drift_state = drift_model'"
    by (simp add: drift_state_def)
  have "\<not> \<bar>drift_ll' - drift_ll\<bar> \<le> 1 / 10 ^ 6"
    using drift_gap by simp
  then have "\<not> declares_convergence (previous_log_likelihood drift_state)
          (log_likelihood_from_support
             (observation_emission_support (self drift_state) example_unique) drift_counts)
          (1 / 10 ^ 6)"
    by (simp add: drift_state_def declares_convergence_def isclose_def drift_support'_eq
          drift_ll'_def [symmetric])
  note c = fit_iteration_continue [OF this, of True, unfolded sel drift_support'_eq
      drift_posterior drift_m_step fst_conv snd_conv]
  show ?thesis
    unfolding c
    by (simp add: drift_state_def drift_final_def drift_model'_def drift_ll'_def)
qed

lemma drift_fit:
  "fit drift_model drift_dataset (Some 2) (1 / 10 ^ 6) True
     = Some (Inr (Some drift_ll', drift_status, drift_model'))"
proof -
  have c0: "loop_condition (Some 2) drift_initial"
    and c1: "loop_condition (Some 2) drift_state"
    and c2: "\<not> loop_condition (Some 2) drift_final"
    by (simp_all add: loop_condition_def drift_initial_def drift_state_def drift_final_def)
  have n1: "\<not> converged_flag drift_state" and n2: "\<not> converged_flag drift_final"
    by (simp_all add: drift_state_def drift_final_def)
  have "fit_loop (Some 2) (1 / 10 ^ 6) True example_unique drift_counts drift_final
          = Some drift_final"
    by (subst fit_loop_unfold) (simp only: c2 if_False)
  then have "fit_loop (Some 2) (1 / 10 ^ 6) True example_unique drift_counts drift_state
          = Some drift_final"
    by (subst fit_loop_unfold) (simp only: c1 drift_iteration_2 n2 if_True if_False)
  then have "fit_loop (Some 2) (1 / 10 ^ 6) True example_unique drift_counts drift_initial
          = Some drift_final"
    by (subst fit_loop_unfold) (simp only: c0 drift_iteration_1 n1 if_True if_False)
  then show ?thesis
    unfolding fit_def
    by (simp add: drift_dims drift_aggregate drift_initial_def [symmetric])
       (simp add: drift_final_def drift_status_def)
qed

lemma example_validate: "validate example_model = Inr ()"
  by (simp add: validate_def example_model_def isclose_def bounded_between_zero_and_one_def)

lemma example_supported:
  "rows_supported example_model example_dataset"
  "components_supported example_model example_dataset"
  by (simp_all add: rows_supported_def components_supported_def observation_emission_support_rows
        example_model_def example_dataset_def bernoulli_prob_def bernoulli_factor_def)

section \<open>Monotonicity of the log-likelihood\<close>

text \<open>
  C6, as amended. For a valid starting model whose mixing coefficients sum to at most 1,
  on a dataset of matching dimensionality on which every row has positive total support
  and every component has positive support on some row, a traced fit with a finite
  iteration limit returns, and whenever a traced fit returns, the sequence of
  log-likelihood values of its trace followed by the value it returns is non-decreasing
  (in exact arithmetic).
\<close>

theorem fit_likelihood_monotone:
  assumes "dataset_ok dataset"
    and "int (ncols dataset) = number_of_dimensions m"
    and "validate m = Inr ()"
    and "rectangular (emission_probabilities m)"
    and "sum_list (mixing_coefficients m) \<le> 1"
    and "rows_supported m dataset"
    and "components_supported m dataset"
  shows "(\<forall>n. \<exists>ll status m'.
            fit m dataset (Some n) convergence_threshold True = Some (Inr (ll, status, m')))
       \<and> (\<forall>ll status m'.
            fit m dataset iteration_limit convergence_threshold True = Some (Inr (ll, status, m'))
            \<longrightarrow> (\<exists>xs. likelihood_trace status = Some xs
                   \<and> sorted (xs @ (case ll of None \<Rightarrow> [] | Some c \<Rightarrow> [c]))))"
proof (intro conjI allI impI)
  fix n
  obtain U W where agg: "aggregate_dataset dataset = (U, W)"
    by (cases "aggregate_dataset dataset")
  let ?s0 = "\<lparr> self = m, iterations_done = 0, previous_log_likelihood = None,
               current_log_likelihood = None, trace = [], converged_flag = False \<rparr>"
  from fit_loop_terminates [of n convergence_threshold True U W ?s0]
  obtain sf where "fit_loop (Some n) convergence_threshold True U W ?s0 = Some sf" by blast
  with assms(2) agg
  show "\<exists>ll status m'.
          fit m dataset (Some n) convergence_threshold True = Some (Inr (ll, status, m'))"
    by (simp add: fit_def)
next
  fix ll status m'
  assume f: "fit m dataset iteration_limit convergence_threshold True = Some (Inr (ll, status, m'))"
  obtain U W where agg: "aggregate_dataset dataset = (U, W)"
    by (cases "aggregate_dataset dataset")
  let ?s0 = "\<lparr> self = m, iterations_done = 0, previous_log_likelihood = None,
               current_log_likelihood = None, trace = [], converged_flag = False \<rparr>"
  from f agg obtain sf
    where run: "fit_loop iteration_limit convergence_threshold True U W ?s0 = Some sf"
      and ll: "ll = current_log_likelihood sf"
      and st: "likelihood_trace status = Some (trace sf)"
    by (auto simp: fit_def split: if_splits option.splits)
  from em_invariant_initial [OF assms] agg have "em_invariant m U W" by simp
  then have "monotone_invariant U W ?s0" by (simp add: monotone_invariant_def)
  from fit_trace_sorted [OF run this] ll st
  show "\<exists>xs. likelihood_trace status = Some xs
          \<and> sorted (xs @ (case ll of None \<Rightarrow> [] | Some c \<Rightarrow> [c]))"
    by simp
qed

theorem fit_likelihood_monotone_witness:
  "dataset_ok example_dataset
   \<and> int (ncols example_dataset) = number_of_dimensions example_model
   \<and> validate example_model = Inr ()
   \<and> rectangular (emission_probabilities example_model)
   \<and> sum_list (mixing_coefficients example_model) \<le> 1
   \<and> fit example_model example_dataset (Some 2) (1 / 10 ^ 6) True
        = Some (Inr (Some example_ll, example_status, example_model))
   \<and> likelihood_trace example_status = Some [example_ll]
   \<and> sorted ([example_ll] @ [example_ll])"
proof -
  have t: "(0::real) \<le> 1 / 10 ^ 6" by simp
  have r: "rectangular (emission_probabilities example_model)"
    by (simp add: rectangular_def example_model_def)
  have s: "sum_list (mixing_coefficients example_model) \<le> 1"
    by (simp add: example_model_def)
  have f: "fit example_model example_dataset (Some 2) (1 / 10 ^ 6) True
        = Some (Inr (Some example_ll, example_status, example_model))"
    using example_fit [OF t, of 0] by (simp add: numeral_2_eq_2)
  have l: "likelihood_trace example_status = Some [example_ll]"
    by (simp add: example_status_def)
  from fit_likelihood_monotone [OF example_dataset_ok example_dims example_validate r s
      example_supported, of "1 / 10 ^ 6" "Some 2"] f l
  have "sorted ([example_ll] @ [example_ll])" by force
  with example_dataset_ok example_dims example_validate r s f l show ?thesis by blast
qed

text \<open>
  C6 as stated fails: the constructor accepts mixing coefficients that sum to \<open>1.00001\<close>, the
  first M-step renormalises them, and the log-likelihood drops by more than \<open>1e-9\<close>
  between the first and the second entry of the trace.
\<close>

theorem fit_likelihood_decreases:
  "init 2 1 (mixing_coefficients drift_model) (emission_probabilities drift_model)
     = Inr drift_model
   \<and> dataset_ok drift_dataset
   \<and> int (ncols drift_dataset) = number_of_dimensions drift_model
   \<and> fit drift_model drift_dataset (Some 2) (1 / 10 ^ 6) True
        = Some (Inr (Some drift_ll', drift_status, drift_model'))
   \<and> likelihood_trace drift_status = Some [drift_ll, drift_ll']
   \<and> drift_ll' < drift_ll - 1 / 10 ^ 9"
proof -
  have "drift_ll' < drift_ll - 1 / 10 ^ 9" using drift_gap by simp
  with drift_valid drift_dataset_ok drift_dims drift_fit show ?thesis
    by (simp add: drift_status_def)
qed

end
